theory Spec2Isabelle
  imports Main "HOL-Library.AList"
begin

section \<open>Data model of \<^verbatim>\<open>routing.py\<close>\<close>

text \<open>
  Python dictionaries are association lists: the order of the list is the iteration
  (insertion) order of the dictionary, \<^const>\<open>map_of\<close> is the lookup and
  \<^const>\<open>AList.update\<close> is item assignment (it replaces the value of an existing key
  in place and appends a new key at the end, as a Python dict does).
\<close>

datatype error = ValueError | AssertionError | StopIteration | KeyError

datatype date = Date int int int

datatype date_or_str = ADate date | AStr string

record RemovalData =
  warning_text :: "string option"
  removal_version :: "string option"
  removal_date :: "date_or_str option"

text \<open>The field \<^verbatim>\<open>redirect: str | types.EllipsisType | None\<close>.\<close>

datatype redirect_t = Absent | Ellipsis | RedirectTo string

record PluginRouting =
  action_plugin :: "string option"
  redirect :: redirect_t
  redirect_chain :: "string list option"
  redirect_deprecations :: "(string \<times> RemovalData) list option"
  redirect_tombstone :: bool
  redirect_dead_end :: bool
  redirect_error :: "string option"
  deprecation :: "RemovalData option"
  tombstone :: "RemovalData option"

type_synonym PluginType = string

type_synonym plugin_dict = "(string \<times> PluginRouting) list"

record CollectionRouting =
  plugin_data :: "(PluginType \<times> plugin_dict) list"

type_synonym catalog = "(string \<times> CollectionRouting) list"

text \<open>
  A reference to one of the inner dictionaries \<^verbatim>\<open>routing_data[coll].plugin_data[ptype]\<close>
  is its address in the catalog. The resolver never replaces these dictionaries, it
  only assigns items in them, so the address identifies the object.
\<close>

type_synonym owner_ref = "string \<times> PluginType"

definition owner_dict :: "catalog \<Rightarrow> owner_ref \<Rightarrow> plugin_dict option" where
  "owner_dict rd a =
     (case map_of rd (fst a) of
        None \<Rightarrow> None
      | Some cr \<Rightarrow> map_of (plugin_data cr) (snd a))"

definition get_plugin :: "catalog \<Rightarrow> owner_ref \<Rightarrow> string \<Rightarrow> PluginRouting option" where
  "get_plugin rd a name =
     (case owner_dict rd a of None \<Rightarrow> None | Some d \<Rightarrow> map_of d name)"

text \<open>\<^verbatim>\<open>owner[name] = v\<close> for the dictionary at address \<open>a\<close>.\<close>

definition set_plugin :: "catalog \<Rightarrow> owner_ref \<Rightarrow> string \<Rightarrow> PluginRouting \<Rightarrow> catalog" where
  "set_plugin rd a name v =
     (case map_of rd (fst a) of
        None \<Rightarrow> rd
      | Some cr \<Rightarrow>
          (case map_of (plugin_data cr) (snd a) of
             None \<Rightarrow> rd
           | Some d \<Rightarrow>
               AList.update (fst a)
                 (cr\<lparr>plugin_data := AList.update (snd a) (AList.update name v d) (plugin_data cr)\<rparr>)
                 rd))"

text \<open>
  \<^verbatim>\<open>if plugin_owner: plugin_owner[plugin_plugin_name] = new_plugin_data\<close>: the owner
  is \<^verbatim>\<open>None\<close> or a dictionary, and an empty dictionary is falsy.
\<close>

definition owner_assign ::
  "catalog \<Rightarrow> owner_ref option \<Rightarrow> string \<Rightarrow> PluginRouting \<Rightarrow> catalog" where
  "owner_assign rd owner name v =
     (case owner of
        None \<Rightarrow> rd
      | Some a \<Rightarrow>
          (case owner_dict rd a of
             None \<Rightarrow> rd
           | Some d \<Rightarrow> if d = [] then rd else set_plugin rd a name v))"

text \<open>\<^verbatim>\<open>tuple(...) or None\<close>\<close>

definition tuple_or_none :: "'a list \<Rightarrow> 'a list option" where
  "tuple_or_none xs = (if xs = [] then None else Some xs)"

text \<open>\<^verbatim>\<open>(t or ())\<close>\<close>

definition or_empty :: "'a list option \<Rightarrow> 'a list" where
  "or_empty t = (case t of None \<Rightarrow> [] | Some xs \<Rightarrow> xs)"

text \<open>\<^verbatim>\<open>s.split(sep, maxsplit)\<close> for a one-character separator.\<close>

fun str_split :: "char \<Rightarrow> nat \<Rightarrow> string \<Rightarrow> string list" where
  "str_split sep 0 s = [s]"
| "str_split sep (Suc n) [] = [[]]"
| "str_split sep (Suc n) (c # cs) =
     (if c = sep then [] # str_split sep n cs
      else (case str_split sep (Suc n) cs of
              [] \<Rightarrow> [[c]]
            | p # ps \<Rightarrow> (c # p) # ps))"

text \<open>\<^verbatim>\<open>sep.join(parts)\<close>, to state that splitting loses nothing.\<close>

fun str_join :: "char \<Rightarrow> string list \<Rightarrow> string" where
  "str_join sep [] = []"
| "str_join sep [x] = x"
| "str_join sep (x # y # ys) = x @ sep # str_join sep (y # ys)"

section \<open>The resolver: \<^verbatim>\<open>_complete_redirect\<close>\<close>

text \<open>
  An element of \<^verbatim>\<open>redirection_list\<close>:
  \<^verbatim>\<open>(fqcn, collection_name, plugin_name, plugin_data | None, owner | None)\<close>.
\<close>

type_synonym elt = "string \<times> string \<times> string \<times> PluginRouting option \<times> owner_ref option"

text \<open>The local variables of \<^verbatim>\<open>_complete_redirect\<close> when the \<^verbatim>\<open>while\<close> loop is left.\<close>

record locals =
  var_routing_data :: catalog
  var_plugin_data :: PluginRouting
  var_redirection_list :: "elt list"
  var_next_name :: string
  var_redirect_chain :: "string list option"
  var_redirect_deprecations :: "(string \<times> RemovalData) list option"
  var_redirect_tombstone :: bool
  var_redirect_dead_end :: bool
  var_redirect_error :: "string option"
  var_is_loop :: bool

text \<open>
  \<^verbatim>\<open>next(index for index, elt in enumerate(redirection_list) if elt[0] == next_name)\<close>;
  \<^verbatim>\<open>None\<close> stands for the \<^verbatim>\<open>StopIteration\<close> of an exhausted generator.
\<close>

fun start_index_of :: "string \<Rightarrow> elt list \<Rightarrow> nat option" where
  "start_index_of name [] = None"
| "start_index_of name (e # es) =
     (if fst e = name then Some 0
      else (case start_index_of name es of None \<Rightarrow> None | Some i \<Rightarrow> Some (Suc i)))"

text \<open>
  \<^verbatim>\<open>redirect_deprecations_w_index\<close>: the deprecations of the cycle, each with the index
  of its element in the cycle.
\<close>

fun deprecations_w_index :: "(nat \<times> elt) list \<Rightarrow> (nat \<times> string \<times> RemovalData) list" where
  "deprecations_w_index [] = []"
| "deprecations_w_index ((index, (fq, cn, pn, ppd, owner)) # rest) =
     (case ppd of
        None \<Rightarrow> deprecations_w_index rest
      | Some p \<Rightarrow>
          (case deprecation p of
             None \<Rightarrow> deprecations_w_index rest
           | Some d \<Rightarrow> (index, (fq, d)) # deprecations_w_index rest))"

text \<open>The \<^verbatim>\<open>for\<close> loop over \<^verbatim>\<open>enumerate(loop)\<close> that rewrites the nodes of a cycle.\<close>

fun cycle_for ::
  "string \<Rightarrow> string option \<Rightarrow> (nat \<times> string \<times> RemovalData) list \<Rightarrow> (nat \<times> elt) list \<Rightarrow>
   catalog \<times> PluginRouting \<times> string list \<Rightarrow> catalog \<times> PluginRouting \<times> string list" where
  "cycle_for fqcn err deps [] st = st"
| "cycle_for fqcn err deps ((index, (plugin_fqcn, cn, plugin_plugin_name, ppd, plugin_owner)) # rest)
     (rd, pdata, chain) =
     (let chain1 = chain @ [plugin_fqcn] in
      (case ppd of
         None \<Rightarrow> cycle_for fqcn err deps rest (rd, pdata, drop 1 chain1)
       | Some p \<Rightarrow>
           (let new_plugin_data =
                  \<lparr>action_plugin = action_plugin p,
                   redirect = Ellipsis,
                   redirect_chain = Some chain1,
                   redirect_deprecations =
                     tuple_or_none
                       (map snd (filter (\<lambda>(idx, e). idx \<ge> index) deps)
                        @ map snd (filter (\<lambda>(idx, e). idx < index) deps)),
                   redirect_tombstone = False,
                   redirect_dead_end = False,
                   redirect_error = err,
                   deprecation = deprecation p,
                   tombstone = tombstone p\<rparr>
            in cycle_for fqcn err deps rest
                 (owner_assign rd plugin_owner plugin_plugin_name new_plugin_data,
                  if plugin_fqcn = fqcn then new_plugin_data else pdata,
                  drop 1 chain1))))"

text \<open>The branch \<^verbatim>\<open>if next_name in found_names:\<close> up to its \<^verbatim>\<open>break\<close>.\<close>

definition found_cycle ::
  "catalog \<Rightarrow> string \<Rightarrow> PluginRouting \<Rightarrow> elt list \<Rightarrow> string \<Rightarrow> error + locals" where
  "found_cycle rd fqcn pdata redirection_list next_name =
     (case start_index_of next_name redirection_list of
        None \<Rightarrow> Inl StopIteration
      | Some start_index \<Rightarrow>
          (let redirect_error = Some ''Detected circular redirect'';
               loop = drop start_index redirection_list;
               deps = deprecations_w_index (enumerate 0 loop)
           in (case cycle_for fqcn redirect_error deps (enumerate 0 loop)
                      (rd, pdata, map fst loop) of
                 (rd', pdata', chain') \<Rightarrow>
                   Inr \<lparr>var_routing_data = rd',
                        var_plugin_data = pdata',
                        var_redirection_list = take start_index redirection_list,
                        var_next_name = next_name,
                        var_redirect_chain = Some (chain' @ [next_name]),
                        var_redirect_deprecations = tuple_or_none (map snd deps),
                        var_redirect_tombstone = False,
                        var_redirect_dead_end = False,
                        var_redirect_error = redirect_error,
                        var_is_loop = True\<rparr>)))"

text \<open>
  The names \<^verbatim>\<open>coll.plugin\<close> of all plugins of one type in the catalog; the walk only
  continues through such names, each at most once, which bounds it.
\<close>

definition plugin_fqcns :: "catalog \<Rightarrow> PluginType \<Rightarrow> string set" where
  "plugin_fqcns rd pt =
     set (concat (map (\<lambda>(c, cr).
            (case map_of (plugin_data cr) pt of
               None \<Rightarrow> []
             | Some d \<Rightarrow> map (\<lambda>(p, v). c @ ''.'' @ p) d)) rd))"

text \<open>
  One run of the body of the \<^verbatim>\<open>while True\<close> loop: it ends in a \<^verbatim>\<open>break\<close>, in a
  raised exception, or it falls through to the next iteration. Only \<^verbatim>\<open>found_names\<close>,
  \<^verbatim>\<open>redirection_list\<close> and \<^verbatim>\<open>next_name\<close> change from one iteration to the next;
  every other local is assigned right before a \<^verbatim>\<open>break\<close>.
\<close>

datatype loop_result =
    Continue "string set" "elt list" string
  | Break locals
  | Raise error

definition loop_body ::
  "catalog \<Rightarrow> PluginType \<Rightarrow> string \<Rightarrow> PluginRouting \<Rightarrow> string set \<Rightarrow> elt list \<Rightarrow> string \<Rightarrow>
   loop_result" where
  "loop_body rd plugin_type fqcn pdata found_names redirection_list next_name =
     (if next_name \<in> found_names then
        (case found_cycle rd fqcn pdata redirection_list next_name of
           Inl e \<Rightarrow> Raise e
         | Inr l \<Rightarrow> Break l)
      else
        (let parts = str_split CHR ''.'' 2 next_name in
         if length parts < 3 then
           Break \<lparr>var_routing_data = rd, var_plugin_data = pdata,
                var_redirection_list = redirection_list, var_next_name = next_name,
                var_redirect_chain = None, var_redirect_deprecations = None,
                var_redirect_tombstone = False, var_redirect_dead_end = True,
                var_redirect_error = Some (''Found redirect to non-FQCN '' @ next_name),
                var_is_loop = False\<rparr>
         else
           (case parts of
              [next_ns, next_cn, next_pn] \<Rightarrow>
                (let next_coll = next_ns @ ''.'' @ next_cn in
                 (case map_of rd next_coll of
                    None \<Rightarrow>
                      Break \<lparr>var_routing_data = rd, var_plugin_data = pdata,
                           var_redirection_list =
                             redirection_list @ [(next_name, next_coll, next_pn, None, None)],
                           var_next_name = next_name,
                           var_redirect_chain = None, var_redirect_deprecations = None,
                           var_redirect_tombstone = False, var_redirect_dead_end = True,
                           var_redirect_error =
                             Some (''Found redirect to unknown collection '' @ next_coll),
                           var_is_loop = False\<rparr>
                  | Some cr \<Rightarrow>
                      (case (case map_of (plugin_data cr) plugin_type of
                               None \<Rightarrow> None
                             | Some prd \<Rightarrow> if prd = [] then None else map_of prd next_pn) of
                         None \<Rightarrow>
                           Break \<lparr>var_routing_data = rd, var_plugin_data = pdata,
                                var_redirection_list =
                                  redirection_list @ [(next_name, next_coll, next_pn, None, None)],
                                var_next_name = next_name,
                                var_redirect_chain = None, var_redirect_deprecations = None,
                                var_redirect_tombstone = False, var_redirect_dead_end = False,
                                var_redirect_error = None, var_is_loop = False\<rparr>
                       | Some pd \<Rightarrow>
                           (case tombstone pd of
                              Some ts \<Rightarrow>
                                Break \<lparr>var_routing_data = rd, var_plugin_data = pdata,
                                     var_redirection_list = redirection_list,
                                     var_next_name = next_name,
                                     var_redirect_chain = None,
                                     var_redirect_deprecations = Some [(next_name, ts)],
                                     var_redirect_tombstone = True,
                                     var_redirect_dead_end = False,
                                     var_redirect_error = None, var_is_loop = False\<rparr>
                            | None \<Rightarrow>
                                if redirect pd = Absent then
                                  Break \<lparr>var_routing_data = rd, var_plugin_data = pdata,
                                       var_redirection_list =
                                         redirection_list
                                         @ [(next_name, next_coll, next_pn, Some pd, None)],
                                       var_next_name = next_name,
                                       var_redirect_chain = None,
                                       var_redirect_deprecations = None,
                                       var_redirect_tombstone = False,
                                       var_redirect_dead_end = False,
                                       var_redirect_error = None, var_is_loop = False\<rparr>
                                else if redirect_error pd \<noteq> None \<or> redirect_tombstone pd
                                        \<or> redirect_dead_end pd then
                                  Break \<lparr>var_routing_data = rd, var_plugin_data = pdata,
                                       var_redirection_list = redirection_list,
                                       var_next_name = next_name,
                                       var_redirect_chain = redirect_chain pd,
                                       var_redirect_deprecations = redirect_deprecations pd,
                                       var_redirect_tombstone = redirect_tombstone pd,
                                       var_redirect_dead_end = redirect_dead_end pd,
                                       var_redirect_error = redirect_error pd,
                                       var_is_loop = (redirect pd = Ellipsis)\<rparr>
                                else
                                  (case redirect pd of
                                     RedirectTo r \<Rightarrow>
                                       Continue
                                         (insert next_name found_names)
                                         (redirection_list
                                          @ [(next_name, next_coll, next_pn, Some pd,
                                              Some (next_coll, plugin_type))])
                                         r
                                   | _ \<Rightarrow> Raise AssertionError)))))
            | _ \<Rightarrow> Raise ValueError)))"

function walk ::
  "catalog \<Rightarrow> PluginType \<Rightarrow> string \<Rightarrow> PluginRouting \<Rightarrow> string set \<Rightarrow> elt list \<Rightarrow> string \<Rightarrow>
   error + locals" where
  "walk rd plugin_type fqcn pdata found_names redirection_list next_name =
     (case loop_body rd plugin_type fqcn pdata found_names redirection_list next_name of
        Raise e \<Rightarrow> Inl e
      | Break l \<Rightarrow> Inr l
      | Continue found_names' redirection_list' next_name' \<Rightarrow>
          walk rd plugin_type fqcn pdata found_names' redirection_list' next_name')"
  by pat_completeness auto

text \<open>
  The \<^verbatim>\<open>for\<close> loop over \<^verbatim>\<open>reversed(redirection_list)\<close> after the walk. Its state
  is the catalog, \<^verbatim>\<open>plugin_data\<close>, \<^verbatim>\<open>redirect_chain\<close> and \<^verbatim>\<open>redirect_deprecations\<close>;
  \<open>redir\<close> is \<^verbatim>\<open>... if is_loop else next_name\<close>.
\<close>

fun prefix_for ::
  "string \<Rightarrow> redirect_t \<Rightarrow> bool \<Rightarrow> bool \<Rightarrow> string option \<Rightarrow> elt list \<Rightarrow>
   catalog \<times> PluginRouting \<times> string list option \<times> (string \<times> RemovalData) list option \<Rightarrow>
   catalog \<times> PluginRouting \<times> string list option \<times> (string \<times> RemovalData) list option" where
  "prefix_for fqcn redir tomb dead err [] st = st"
| "prefix_for fqcn redir tomb dead err
     ((plugin_fqcn, cn, plugin_plugin_name, ppd, plugin_owner) # rest) (rd, pdata, chain, deps) =
     (let chain1 = Some (plugin_fqcn # or_empty chain) in
      (case ppd of
         None \<Rightarrow> prefix_for fqcn redir tomb dead err rest (rd, pdata, chain1, deps)
       | Some p \<Rightarrow>
           (let deps1 = (case deprecation p of
                           None \<Rightarrow> deps
                         | Some d \<Rightarrow> Some ((plugin_fqcn, d) # or_empty deps));
                new_plugin_data =
                  \<lparr>action_plugin = action_plugin p,
                   redirect = redir,
                   redirect_chain = chain1,
                   redirect_deprecations = deps1,
                   redirect_tombstone = tomb,
                   redirect_dead_end = dead,
                   redirect_error = err,
                   deprecation = deprecation p,
                   tombstone = tombstone p\<rparr>
            in prefix_for fqcn redir tomb dead err rest
                 (owner_assign rd plugin_owner plugin_plugin_name new_plugin_data,
                  if plugin_fqcn = fqcn then new_plugin_data else pdata,
                  chain1, deps1))))"

text \<open>
  \<^verbatim>\<open>_complete_redirect\<close>. The Python function mutates the catalog through the owner
  references and returns the record of the start node; the model returns both.
\<close>

definition complete_redirect ::
  "PluginRouting \<Rightarrow> catalog \<Rightarrow> string \<Rightarrow> PluginType \<Rightarrow> string \<Rightarrow>
   error + (PluginRouting \<times> catalog)" where
  "complete_redirect pdata rd collection_name plugin_type plugin_name =
     (case redirect pdata of
        Absent \<Rightarrow> Inr (pdata, rd)
      | Ellipsis \<Rightarrow> Inr (pdata, rd)
      | RedirectTo target \<Rightarrow>
          if redirect_chain pdata \<noteq> None then Inr (pdata, rd)
          else
            (let fqcn = collection_name @ ''.'' @ plugin_name in
             (case walk rd plugin_type fqcn pdata {fqcn}
                     [(fqcn, collection_name, plugin_name, Some pdata, None)] target of
                Inl e \<Rightarrow> Inl e
              | Inr l \<Rightarrow>
                  (case prefix_for fqcn
                          (if var_is_loop l then Ellipsis else RedirectTo (var_next_name l))
                          (var_redirect_tombstone l) (var_redirect_dead_end l)
                          (var_redirect_error l)
                          (rev (var_redirection_list l))
                          (var_routing_data l, var_plugin_data l,
                           var_redirect_chain l, var_redirect_deprecations l) of
                     (rd', pdata', chain', deps') \<Rightarrow> Inr (pdata', rd')))))"

section \<open>\<^verbatim>\<open>complete_redirects_for_collection\<close> and \<^verbatim>\<open>complete_redirects\<close>\<close>

text \<open>
  \<^verbatim>\<open>for plugin_name in list(plugin_routing_data):
      plugin_routing_data[plugin_name] = _complete_redirect(plugin_routing_data[plugin_name], ...)\<close>
  over the snapshot \<open>names\<close> of the keys; a missing key would raise \<^verbatim>\<open>KeyError\<close>.
\<close>

fun complete_names :: "catalog \<Rightarrow> string \<Rightarrow> PluginType \<Rightarrow> string list \<Rightarrow> error + catalog" where
  "complete_names rd collection_name plugin_type [] = Inr rd"
| "complete_names rd collection_name plugin_type (plugin_name # names) =
     (case get_plugin rd (collection_name, plugin_type) plugin_name of
        None \<Rightarrow> Inl KeyError
      | Some pdata \<Rightarrow>
          (case complete_redirect pdata rd collection_name plugin_type plugin_name of
             Inl e \<Rightarrow> Inl e
           | Inr (pdata', rd') \<Rightarrow>
               complete_names
                 (set_plugin rd' (collection_name, plugin_type) plugin_name pdata')
                 collection_name plugin_type names))"

text \<open>
  \<^verbatim>\<open>for plugin_type, plugin_routing_data in rd.plugin_data.items():\<close> where the key
  snapshot of each inner dictionary is taken when its turn comes.
\<close>

fun complete_types :: "catalog \<Rightarrow> string \<Rightarrow> PluginType list \<Rightarrow> error + catalog" where
  "complete_types rd collection_name [] = Inr rd"
| "complete_types rd collection_name (plugin_type # types) =
     (case owner_dict rd (collection_name, plugin_type) of
        None \<Rightarrow> Inl KeyError
      | Some plugin_routing_data \<Rightarrow>
          (case complete_names rd collection_name plugin_type (map fst plugin_routing_data) of
             Inl e \<Rightarrow> Inl e
           | Inr rd' \<Rightarrow> complete_types rd' collection_name types))"

definition complete_redirects_for_collection :: "catalog \<Rightarrow> string \<Rightarrow> error + catalog" where
  "complete_redirects_for_collection routing_data collection_name =
     (case map_of routing_data collection_name of
        None \<Rightarrow> Inr routing_data
      | Some rd \<Rightarrow> complete_types routing_data collection_name (map fst (plugin_data rd)))"

fun complete_collections :: "catalog \<Rightarrow> string list \<Rightarrow> error + catalog" where
  "complete_collections routing_data [] = Inr routing_data"
| "complete_collections routing_data (collection_name # names) =
     (case complete_redirects_for_collection routing_data collection_name of
        Inl e \<Rightarrow> Inl e
      | Inr routing_data' \<Rightarrow> complete_collections routing_data' names)"

definition complete_redirects :: "catalog \<Rightarrow> error + catalog" where
  "complete_redirects routing_data = complete_collections routing_data (map fst routing_data)"

section \<open>The metadata loader: \<^verbatim>\<open>_parse_plugin_data\<close>\<close>

text \<open>
  A parsed YAML document (\<^verbatim>\<open>t.Any\<close> in the source). \<open>YOther b\<close> is a value of any
  other Python type, of truthiness \<open>b\<close>.
\<close>

datatype yaml =
    YNone
  | YBool bool
  | YInt int
  | YStr string
  | YDate date
  | YDateTime date nat
  | YSeq "yaml list"
  | YMap "(string \<times> yaml) list"
  | YOther bool

fun truthy :: "yaml \<Rightarrow> bool" where
  "truthy YNone = False"
| "truthy (YBool b) = b"
| "truthy (YInt i) = (i \<noteq> 0)"
| "truthy (YStr s) = (s \<noteq> [])"
| "truthy (YDate d) = True"
| "truthy (YDateTime d t) = True"
| "truthy (YSeq xs) = (xs \<noteq> [])"
| "truthy (YMap m) = (m \<noteq> [])"
| "truthy (YOther b) = b"

text \<open>
  \<^verbatim>\<open>v = removal_data.get(key)\<close> followed by
  \<^verbatim>\<open>if v is not None and not isinstance(v, str): raise ValueError(...)\<close>.
\<close>

definition get_optional_str :: "(string \<times> yaml) list \<Rightarrow> string \<Rightarrow> error + string option" where
  "get_optional_str m key =
     (case map_of m key of
        None \<Rightarrow> Inr None
      | Some YNone \<Rightarrow> Inr None
      | Some (YStr s) \<Rightarrow> Inr (Some s)
      | Some _ \<Rightarrow> Inl ValueError)"

definition get_removal_date :: "(string \<times> yaml) list \<Rightarrow> error + date_or_str option" where
  "get_removal_date m =
     (case map_of m ''removal_date'' of
        None \<Rightarrow> Inr None
      | Some (YDateTime d t) \<Rightarrow> Inr (Some (ADate d))
      | Some YNone \<Rightarrow> Inr None
      | Some (YDate d) \<Rightarrow> Inr (Some (ADate d))
      | Some (YStr s) \<Rightarrow> Inr (Some (AStr s))
      | Some _ \<Rightarrow> Inl ValueError)"

definition load_removal_data :: "(string \<times> yaml) list \<Rightarrow> string \<Rightarrow> error + RemovalData option" where
  "load_removal_data pd typ =
     (case map_of pd typ of
        None \<Rightarrow> Inr None
      | Some (YMap removal_data) \<Rightarrow>
          (case get_optional_str removal_data ''warning_text'' of
             Inl e \<Rightarrow> Inl e
           | Inr wt \<Rightarrow>
               (case get_optional_str removal_data ''removal_version'' of
                  Inl e \<Rightarrow> Inl e
                | Inr rv \<Rightarrow>
                    (case get_removal_date removal_data of
                       Inl e \<Rightarrow> Inl e
                     | Inr dt \<Rightarrow>
                         Inr (Some \<lparr>warning_text = wt, removal_version = rv,
                                    removal_date = dt\<rparr>))))
      | Some _ \<Rightarrow> Inl ValueError)"

definition parse_plugin_data ::
  "yaml \<Rightarrow> string \<Rightarrow> PluginType \<Rightarrow> string \<Rightarrow> error + PluginRouting" where
  "parse_plugin_data pd own_name real_plugin_type plugin_name =
     (if \<not> truthy pd then
        Inr \<lparr>action_plugin = None, redirect = Absent, redirect_chain = None,
             redirect_deprecations = None, redirect_tombstone = False,
             redirect_dead_end = False, redirect_error = None,
             deprecation = None, tombstone = None\<rparr>
      else
        (case pd of
           YMap m \<Rightarrow>
             (case load_removal_data m ''deprecation'' of
                Inl e \<Rightarrow> Inl e
              | Inr depr \<Rightarrow>
                  (case load_removal_data m ''tombstone'' of
                     Inl e \<Rightarrow> Inl e
                   | Inr tomb \<Rightarrow>
                       (let plugin_fqcn = own_name @ ''.'' @ plugin_name in
                        (case (if real_plugin_type = ''module''
                               then (case map_of m ''action_plugin'' of
                                       None \<Rightarrow> Inr None
                                     | Some (YStr s) \<Rightarrow> Inr (Some s)
                                     | Some _ \<Rightarrow> Inl ValueError)
                               else Inr None) of
                           Inl e \<Rightarrow> Inl e
                         | Inr act \<Rightarrow>
                             (case map_of m ''redirect'' of
                                None \<Rightarrow>
                                  Inr \<lparr>action_plugin = act, redirect = Absent,
                                       redirect_chain = None, redirect_deprecations = None,
                                       redirect_tombstone = False, redirect_dead_end = False,
                                       redirect_error = None,
                                       deprecation = depr, tombstone = tomb\<rparr>
                              | Some (YStr r) \<Rightarrow>
                                  if r = plugin_fqcn then
                                    Inr \<lparr>action_plugin = act, redirect = Ellipsis,
                                         redirect_chain = Some [plugin_fqcn, plugin_fqcn],
                                         redirect_deprecations =
                                           (case depr of
                                              None \<Rightarrow> None
                                            | Some d \<Rightarrow> Some [(plugin_fqcn, d)]),
                                         redirect_tombstone = False, redirect_dead_end = False,
                                         redirect_error = Some ''Detected circular redirect'',
                                         deprecation = depr, tombstone = tomb\<rparr>
                                  else
                                    Inr \<lparr>action_plugin = act, redirect = RedirectTo r,
                                         redirect_chain = None, redirect_deprecations = None,
                                         redirect_tombstone = False, redirect_dead_end = False,
                                         redirect_error = None,
                                         deprecation = depr, tombstone = tomb\<rparr>
                              | Some _ \<Rightarrow> Inl ValueError)))))
         | _ \<Rightarrow> Inl ValueError))"

section \<open>The child environment: \<^verbatim>\<open>_prepare_env\<close> of \<^verbatim>\<open>ansible_cli.py\<close>\<close>

text \<open>\<^verbatim>\<open>env.update(other)\<close>\<close>

definition dict_update :: "('k \<times> 'v) list \<Rightarrow> ('k \<times> 'v) list \<Rightarrow> ('k \<times> 'v) list" where
  "dict_update env other = fold (\<lambda>(k, v). AList.update k v) other env"

definition COLLECTIONS_PATH_ENV_VAR :: string where
  "COLLECTIONS_PATH_ENV_VAR = ''ANSIBLE_COLLECTIONS_PATH''"

definition COLLECTIONS_PATH_ENV_VAR_COMPAT :: string where
  "COLLECTIONS_PATH_ENV_VAR_COMPAT = ''ANSIBLE_COLLECTIONS_PATHS''"

text \<open>
  \<open>os_environ\<close> is the environment of the parent process. The last assignment of the
  source uses the string literal \<^verbatim>\<open>"_COLLECTIONS_PATH_ENV_VAR_COMPAT"\<close> as the key.
\<close>

definition prepare_env ::
  "(string \<times> string) list \<Rightarrow> string option \<Rightarrow> bool \<Rightarrow> bool \<Rightarrow> (string \<times> string) list option" where
  "prepare_env os_environ collections_path only_pass_env_updates compat' =
     (let env0 = (if only_pass_env_updates then [] else os_environ);
          env1 = dict_update env0
            [(''ANSIBLE_ACTION_PLUGINS'', ''/dev/null''),
             (''ANSIBLE_CACHE_PLUGINS'', ''/dev/null''),
             (''ANSIBLE_CALLBACK_PLUGINS'', ''/dev/null''),
             (''ANSIBLE_CLICONF_PLUGINS'', ''/dev/null''),
             (''ANSIBLE_CONNECTION_PLUGINS'', ''/dev/null''),
             (''ANSIBLE_FILTER_PLUGINS'', ''/dev/null''),
             (''ANSIBLE_HTTPAPI_PLUGINS'', ''/dev/null''),
             (''ANSIBLE_INVENTORY_PLUGINS'', ''/dev/null''),
             (''ANSIBLE_LOOKUP_PLUGINS'', ''/dev/null''),
             (''ANSIBLE_LIBRARY'', ''/dev/null''),
             (''ANSIBLE_MODULE_UTILS'', ''/dev/null''),
             (''ANSIBLE_NETCONF_PLUGINS'', ''/dev/null''),
             (''ANSIBLE_ROLES_PATH'', ''/dev/null''),
             (''ANSIBLE_STRATEGY_PLUGINS'', ''/dev/null''),
             (''ANSIBLE_TERMINAL_PLUGINS'', ''/dev/null''),
             (''ANSIBLE_TEST_PLUGINS'', ''/dev/null''),
             (''ANSIBLE_VARS_PLUGINS'', ''/dev/null''),
             (''ANSIBLE_DOC_FRAGMENT_PLUGINS'', ''/dev/null'')];
          env2 = (case collections_path of
                    None \<Rightarrow> env1
                  | Some p \<Rightarrow>
                      if p = [] then env1
                      else
                        (let env' = AList.update ''ANSIBLE_COLLECTIONS_PATH'' p env1 in
                         if compat'
                         then AList.update ''_COLLECTIONS_PATH_ENV_VAR_COMPAT'' p env'
                         else env'))
      in if env2 \<noteq> [] \<or> \<not> only_pass_env_updates then Some env2 else None)"

section \<open>Predicates and examples used to state and prove the properties\<close>

text \<open>The key structure of a catalog: bundle names, plugin types per bundle, plugin names per type.\<close>

definition keys_of :: "catalog \<Rightarrow> (string \<times> (PluginType \<times> string list) list) list" where
  "keys_of rd = map (\<lambda>(c, cr). (c, map (\<lambda>(pt, d). (pt, map fst d)) (plugin_data cr))) rd"

definition elt_ok :: "catalog \<Rightarrow> PluginType \<Rightarrow> elt \<Rightarrow> bool" where
  "elt_ok rd pt e =
     (case e of (fq, cn, pn, ppd, owner) \<Rightarrow>
        fq = cn @ ''.'' @ pn \<and>
        (case owner of None \<Rightarrow> True | Some a \<Rightarrow> a = (cn, pt) \<and> get_plugin rd a pn \<noteq> None))"

definition has_start :: "string \<Rightarrow> elt list \<Rightarrow> bool" where
  "has_start fqcn path = (\<exists>cn pn p owner. (fqcn, cn, pn, Some p, owner) \<in> set path)"

definition clean_outcome :: "redirect_t \<Rightarrow> bool \<Rightarrow> bool \<Rightarrow> string option \<Rightarrow> string \<Rightarrow> bool" where
  "clean_outcome redir tomb dead err t =
     (redir = RedirectTo t \<and> err = None \<and> \<not> tomb \<and> \<not> dead)"

definition written :: "string \<Rightarrow> PluginRouting \<Rightarrow> bool" where
  "written fq x =
     (redirect x \<noteq> Absent \<and>
      (redirect x = Ellipsis \<longrightarrow>
         redirect_error x \<noteq> None \<or> redirect_tombstone x \<or> redirect_dead_end x) \<and>
      (\<exists>rest. redirect_chain x = Some (fq # rest) \<and>
         (\<forall>t. clean_outcome (redirect x) (redirect_tombstone x) (redirect_dead_end x)
                (redirect_error x) t \<longrightarrow> last (fq # rest) = t)))"

definition chain_ends ::
  "redirect_t \<Rightarrow> bool \<Rightarrow> bool \<Rightarrow> string option \<Rightarrow> elt list \<Rightarrow> string list option \<Rightarrow> bool" where
  "chain_ends redir tomb dead err es chain =
     (\<forall>t. clean_outcome redir tomb dead err t \<longrightarrow>
        (case chain of
           None \<Rightarrow> (\<exists>e rest. es = e # rest \<and> fst e = t)
         | Some ch \<Rightarrow> ch \<noteq> [] \<and> last ch = t))"

definition rewritten :: "catalog \<Rightarrow> catalog \<Rightarrow> bool" where
  "rewritten rd rd' =
     (keys_of rd' = keys_of rd \<and>
      (\<forall>a n x. get_plugin rd' a n = Some x \<longrightarrow>
         get_plugin rd a n = Some x \<or> written (fst a @ ''.'' @ n) x))"

definition exit_ok :: "catalog \<Rightarrow> PluginType \<Rightarrow> string \<Rightarrow> elt list \<Rightarrow> locals \<Rightarrow> bool" where
  "exit_ok rd pt fqcn path l =
     (rewritten rd (var_routing_data l) \<and>
      (\<forall>e \<in> set (var_redirection_list l). elt_ok (var_routing_data l) pt e) \<and>
      (has_start fqcn path \<longrightarrow>
         written fqcn (var_plugin_data l) \<or> has_start fqcn (var_redirection_list l)) \<and>
      (var_is_loop l \<longrightarrow>
         var_redirect_error l \<noteq> None \<or> var_redirect_tombstone l \<or> var_redirect_dead_end l) \<and>
      chain_ends (if var_is_loop l then Ellipsis else RedirectTo (var_next_name l))
        (var_redirect_tombstone l) (var_redirect_dead_end l) (var_redirect_error l)
        (rev (var_redirection_list l)) (var_redirect_chain l))"

text \<open>A record that needs no resolution: the guard at the top of \<^verbatim>\<open>_complete_redirect\<close>.\<close>

definition already_done :: "PluginRouting \<Rightarrow> bool" where
  "already_done p = (redirect p = Absent \<or> redirect p = Ellipsis \<or> redirect_chain p \<noteq> None)"

definition done_at :: "catalog \<Rightarrow> owner_ref \<Rightarrow> string \<Rightarrow> bool" where
  "done_at rd a n = (\<exists>x. get_plugin rd a n = Some x \<and> already_done x)"

definition all_done :: "catalog \<Rightarrow> bool" where
  "all_done rd = (\<forall>a n x. get_plugin rd a n = Some x \<longrightarrow> already_done x)"

text \<open>Example records and catalogs.\<close>

definition blank_routing :: PluginRouting where
  "blank_routing =
     \<lparr>action_plugin = None, redirect = Absent, redirect_chain = None,
      redirect_deprecations = None, redirect_tombstone = False, redirect_dead_end = False,
      redirect_error = None, deprecation = None, tombstone = None\<rparr>"

definition redirecting :: "string \<Rightarrow> PluginRouting" where
  "redirecting target = blank_routing\<lparr>redirect := RedirectTo target\<rparr>"

definition self_loop :: "string \<Rightarrow> PluginRouting" where
  "self_loop fq =
     blank_routing\<lparr>redirect := Ellipsis, redirect_chain := Some [fq, fq],
       redirect_error := Some ''Detected circular redirect''\<rparr>"

definition one_bundle :: "plugin_dict \<Rightarrow> catalog" where
  "one_bundle d = [(''foo.bar'', \<lparr>plugin_data = [(''module'', d)]\<rparr>)]"

definition chain_ab :: catalog where
  "chain_ab = one_bundle
     [(''a'', redirecting ''foo.bar.b''), (''b'', redirecting ''foo.bar.c''),
      (''c'', redirecting ''foo.bar.d''), (''d'', blank_routing)]"

definition chain_ba :: catalog where
  "chain_ba = one_bundle
     [(''b'', redirecting ''foo.bar.c''), (''a'', redirecting ''foo.bar.b''),
      (''c'', redirecting ''foo.bar.d''), (''d'', blank_routing)]"

definition pre_loop :: catalog where
  "pre_loop = one_bundle
     [(''loop_2'', redirecting ''foo.bar.loop_3''), (''loop_3'', self_loop ''foo.bar.loop_3'')]"

text \<open>The chain recorded for a plugin of type \<^verbatim>\<open>module\<close> of \<^verbatim>\<open>foo.bar\<close> after \<^verbatim>\<open>complete_redirects\<close>.\<close>

definition resolved_chain :: "catalog \<Rightarrow> string \<Rightarrow> string list option" where
  "resolved_chain rd name =
     (case complete_redirects rd of
        Inl e \<Rightarrow> None
      | Inr rd' \<Rightarrow>
          (case get_plugin rd' (''foo.bar'', ''module'') name of
             None \<Rightarrow> None
           | Some p \<Rightarrow> redirect_chain p))"

text \<open>
  The shape that claim C2 gives to a resolved record of the plugin \<open>fq\<close>: its chain
  starts with \<open>fq\<close> and ends with the FQN stored in \<^verbatim>\<open>redirect\<close>, or the record is
  marked as a cycle and its chain holds \<open>fq\<close> twice.
\<close>

definition claimed_shape :: "string \<Rightarrow> PluginRouting \<Rightarrow> bool" where
  "claimed_shape fq x =
     (case redirect_chain x of
        None \<Rightarrow> False
      | Some ch \<Rightarrow>
          (ch \<noteq> [] \<and> hd ch = fq \<and> redirect x = RedirectTo (last ch))
          \<or> (redirect x = Ellipsis \<and> count_list ch fq = 2))"

definition tombstoned :: "string \<Rightarrow> PluginRouting" where
  "tombstoned w =
     blank_routing\<lparr>tombstone :=
       Some \<lparr>warning_text = Some w, removal_version = None, removal_date = None\<rparr>\<rparr>"

definition dead_chain :: catalog where
  "dead_chain = one_bundle
     [(''dead_chain_2'', redirecting ''foo.bar.dead_chain_3''),
      (''dead_chain_3'', tombstoned ''this is dead'')]"

text \<open>The record of a plugin of type \<^verbatim>\<open>module\<close> of \<^verbatim>\<open>foo.bar\<close> after \<^verbatim>\<open>complete_redirects\<close>.\<close>

definition resolved_record :: "catalog \<Rightarrow> string \<Rightarrow> PluginRouting option" where
  "resolved_record rd name =
     (case complete_redirects rd of
        Inl e \<Rightarrow> None
      | Inr rd' \<Rightarrow> get_plugin rd' (''foo.bar'', ''module'') name)"

text \<open>
  An unresolved plain redirect: \<open>name\<close> is the FQN of a plugin of the catalog that has
  no tombstone, redirects to \<open>r\<close> and carries no outcome of an earlier resolution. These
  are the nodes at which the walk appends an element with its owner and goes on to \<open>r\<close>.
\<close>

definition plain_redirect :: "catalog \<Rightarrow> PluginType \<Rightarrow> string \<Rightarrow> (elt \<times> string) option" where
  "plain_redirect rd pt name =
     (case str_split CHR ''.'' 2 name of
        [ns, cn, pn] \<Rightarrow>
          (case get_plugin rd (ns @ ''.'' @ cn, pt) pn of
             None \<Rightarrow> None
           | Some pd \<Rightarrow>
               (case redirect pd of
                  RedirectTo r \<Rightarrow>
                    if tombstone pd = None \<and> redirect_error pd = None
                       \<and> \<not> redirect_tombstone pd \<and> \<not> redirect_dead_end pd
                    then Some ((name, ns @ ''.'' @ cn, pn, Some pd, Some (ns @ ''.'' @ cn, pt)), r)
                    else None
                | _ \<Rightarrow> None))
      | _ \<Rightarrow> None)"

text \<open>
  \<open>hops rd pt name es t\<close>: starting at \<open>name\<close>, the nodes \<open>es\<close> are unresolved plain
  redirects, each to the next, and the last of them redirects to \<open>t\<close>.
\<close>

fun hops :: "catalog \<Rightarrow> PluginType \<Rightarrow> string \<Rightarrow> elt list \<Rightarrow> string \<Rightarrow> bool" where
  "hops rd pt name [] t = (name = t)"
| "hops rd pt name (e # es) t =
     (case plain_redirect rd pt name of
        None \<Rightarrow> False
      | Some (e', r) \<Rightarrow> e' = e \<and> hops rd pt r es t)"

text \<open>The deprecations of the nodes of a path, in path order.\<close>

fun own_deprecations :: "elt list \<Rightarrow> (string \<times> RemovalData) list" where
  "own_deprecations [] = []"
| "own_deprecations ((fq, cn, pn, ppd, owner) # es) =
     (case ppd of
        None \<Rightarrow> own_deprecations es
      | Some p \<Rightarrow>
          (case deprecation p of
             None \<Rightarrow> own_deprecations es
           | Some d \<Rightarrow> (fq, d) # own_deprecations es))"

text \<open>The record that the rewrite after the walk builds from the old record \<open>p\<close>.\<close>

definition rewritten_record ::
  "PluginRouting \<Rightarrow> redirect_t \<Rightarrow> string list \<Rightarrow> (string \<times> RemovalData) list option \<Rightarrow>
   bool \<Rightarrow> bool \<Rightarrow> string option \<Rightarrow> PluginRouting" where
  "rewritten_record p redir chain deps tomb dead err =
     \<lparr>action_plugin = action_plugin p, redirect = redir, redirect_chain = Some chain,
      redirect_deprecations = deps, redirect_tombstone = tomb, redirect_dead_end = dead,
      redirect_error = err, deprecation = deprecation p, tombstone = tombstone p\<rparr>"

text \<open>\<^verbatim>\<open>redirect_deprecations\<close> after the deprecations \<open>ds\<close> of a path were put in front.\<close>

definition prepend_deprecations ::
  "(string \<times> RemovalData) list \<Rightarrow> (string \<times> RemovalData) list option \<Rightarrow>
   (string \<times> RemovalData) list option" where
  "prepend_deprecations ds deps = (if ds = [] then deps else Some (ds @ or_empty deps))"

definition deprecated_start :: catalog where
  "deprecated_start = one_bundle
     [(''old'', (redirecting ''foo.bar.gone'')\<lparr>deprecation :=
         Some \<lparr>warning_text = Some ''old'', removal_version = None, removal_date = None\<rparr>\<rparr>),
      (''gone'', tombstoned ''this is dead'')]"

definition old_removal :: RemovalData where
  "old_removal = \<lparr>warning_text = Some ''old'', removal_version = None, removal_date = None\<rparr>"

definition dead_removal :: RemovalData where
  "dead_removal =
     \<lparr>warning_text = Some ''this is dead'', removal_version = None, removal_date = None\<rparr>"

definition dead_path :: catalog where
  "dead_path = one_bundle
     [(''dead_chain_1'', (redirecting ''foo.bar.dead_chain_2'')\<lparr>deprecation := Some old_removal\<rparr>),
      (''dead_chain_2'', redirecting ''foo.bar.dead_chain_3''),
      (''dead_chain_3'', blank_routing\<lparr>tombstone := Some dead_removal\<rparr>)]"



text \<open>The place of a path node in the catalog.\<close>

definition node_record :: "catalog \<Rightarrow> PluginType \<Rightarrow> elt \<Rightarrow> PluginRouting option" where
  "node_record rd pt e = (case e of (fq, cn, pn, ppd, owner) \<Rightarrow> get_plugin rd (cn, pt) pn)"



text \<open>The record that the cycle branch builds from the old record \<open>p\<close>.\<close>

definition cycle_record ::
  "PluginRouting \<Rightarrow> string list \<Rightarrow> (string \<times> RemovalData) list \<Rightarrow> PluginRouting" where
  "cycle_record p chain deps =
     \<lparr>action_plugin = action_plugin p, redirect = Ellipsis, redirect_chain = Some chain,
      redirect_deprecations = tuple_or_none deps,
      redirect_tombstone = False, redirect_dead_end = False,
      redirect_error = Some ''Detected circular redirect'',
      deprecation = deprecation p, tombstone = tombstone p\<rparr>"

definition pre_removal :: RemovalData where
  "pre_removal = \<lparr>warning_text = Some ''pre 2'', removal_version = None, removal_date = None\<rparr>"

text \<open>
  A cycle over two bundles with two plugins in front of it:
  \<^verbatim>\<open>pre_loop_1 -> pre_loop_2 -> loop_1 -> bar.baz.loop_2 -> loop_3 -> loop_1\<close>.
\<close>

definition loop_3 :: catalog where
  "loop_3 =
     [(''foo.bar'', \<lparr>plugin_data = [(''module'',
         [(''loop_1'', (redirecting ''bar.baz.loop_2'')\<lparr>deprecation := Some old_removal\<rparr>),
          (''loop_3'', (redirecting ''foo.bar.loop_1'')\<lparr>deprecation := Some dead_removal\<rparr>),
          (''pre_loop_1'', redirecting ''foo.bar.pre_loop_2''),
          (''pre_loop_2'',
             (redirecting ''foo.bar.loop_1'')\<lparr>deprecation := Some pre_removal\<rparr>)])]\<rparr>),
      (''bar.baz'', \<lparr>plugin_data = [(''module'',
         [(''loop_2'', redirecting ''foo.bar.loop_3'')])]\<rparr>)]"

text \<open>
  A chain that ends in a cycle: its last element occurs earlier in it as well. A record
  marked as a cycle is expected to carry such a chain; the loader stores
  \<^verbatim>\<open>(fqcn, fqcn)\<close> for a plugin that redirects to itself.
\<close>

definition closed_chain :: "string list \<Rightarrow> bool" where
  "closed_chain ch = (ch \<noteq> [] \<and> last ch \<in> set (butlast ch))"

definition ends_in_cycle :: "PluginRouting \<Rightarrow> bool" where
  "ends_in_cycle x =
     (redirect x = Ellipsis \<longrightarrow>
        (case redirect_chain x of None \<Rightarrow> False | Some ch \<Rightarrow> closed_chain ch))"

text \<open>Every record of the catalog that is marked as a cycle carries such a chain.\<close>

definition cycle_marks_closed :: "catalog \<Rightarrow> bool" where
  "cycle_marks_closed rd =
     (\<forall>(c, cr) \<in> set rd. \<forall>(pt, d) \<in> set (plugin_data cr). \<forall>(n, x) \<in> set d. ends_in_cycle x)"

definition cycles_closed :: "catalog \<Rightarrow> bool" where
  "cycles_closed rd = (\<forall>a n x. get_plugin rd a n = Some x \<longrightarrow> ends_in_cycle x)"

text \<open>
  The locals at the \<^verbatim>\<open>break\<close>: the catalog and the record of the start node are as
  above, and a chain taken over for a cycle ends in the cycle.
\<close>

definition exit_closed :: "locals \<Rightarrow> bool" where
  "exit_closed l =
     (cycles_closed (var_routing_data l) \<and> ends_in_cycle (var_plugin_data l) \<and>
      (var_is_loop l \<longrightarrow>
         (case var_redirect_chain l of None \<Rightarrow> False | Some ch \<Rightarrow> closed_chain ch)))"

text \<open>
  A chain that goes once round a cycle of plain redirects of the catalog \<open>rd0\<close>: from \<open>fq\<close>
  over different plugins back to \<open>fq\<close>.
\<close>

definition round_trip :: "catalog \<Rightarrow> PluginType \<Rightarrow> string \<Rightarrow> string list \<Rightarrow> bool" where
  "round_trip rd0 pt fq ch =
     (\<exists>es. es \<noteq> [] \<and> hops rd0 pt fq es fq \<and> distinct (map fst es) \<and> ch = map fst es @ [fq])"

text \<open>
  A record marked as a cycle whose chain is the round trip from \<open>fq\<close>, and a place of the
  catalog that holds such a record for its own FQN.
\<close>

definition marked_rec :: "catalog \<Rightarrow> PluginType \<Rightarrow> string \<Rightarrow> PluginRouting \<Rightarrow> bool" where
  "marked_rec rd0 pt fq x =
     (redirect x = Ellipsis \<and> redirect_error x \<noteq> None
      \<and> (\<exists>ch. redirect_chain x = Some ch \<and> round_trip rd0 pt fq ch))"

definition marked_at :: "catalog \<Rightarrow> catalog \<Rightarrow> owner_ref \<Rightarrow> string \<Rightarrow> bool" where
  "marked_at rd0 rd a m =
     (\<exists>x. get_plugin rd a m = Some x \<and> marked_rec rd0 (snd a) (fst a @ ''.'' @ m) x)"

text \<open>A bundle name of the form \<^verbatim>\<open>namespace.name\<close>: it holds exactly one dot.\<close>

definition two_part :: "string \<Rightarrow> bool" where
  "two_part c = (case str_split CHR ''.'' 2 c of [a, b] \<Rightarrow> True | _ \<Rightarrow> False)"

text \<open>
  The state of the nodes \<open>cyc\<close> of a cycle of the catalog \<open>rd0\<close> in a later catalog \<open>rd\<close>:
  all of them still hold their records of \<open>rd0\<close>, or all of them are marked as cycles.
\<close>

definition cycle_untouched :: "catalog \<Rightarrow> catalog \<Rightarrow> PluginType \<Rightarrow> elt list \<Rightarrow> bool" where
  "cycle_untouched rd0 rd pt cyc = (\<forall>e \<in> set cyc. node_record rd pt e = node_record rd0 pt e)"

definition cycle_marked :: "catalog \<Rightarrow> catalog \<Rightarrow> PluginType \<Rightarrow> elt list \<Rightarrow> bool" where
  "cycle_marked rd0 rd pt cyc =
     (\<forall>e \<in> set cyc. marked_at rd0 rd (fst (snd e), pt) (fst (snd (snd e))))"

definition cycle_kept :: "catalog \<Rightarrow> catalog \<Rightarrow> PluginType \<Rightarrow> elt list \<Rightarrow> bool" where
  "cycle_kept rd0 rd pt cyc = (cycle_untouched rd0 rd pt cyc \<or> cycle_marked rd0 rd pt cyc)"

text \<open>A catalog with a bundle whose name has three parts.\<close>

definition three_part_bundle :: catalog where
  "three_part_bundle =
     [(''a.b.c'', \<lparr>plugin_data = [(''module'', [(''d'', redirecting ''a.b.x'')])]\<rparr>),
      (''a.b'', \<lparr>plugin_data = [(''module'',
         [(''c.d'', redirecting ''a.b.x''), (''x'', redirecting ''a.b.c.d'')])]\<rparr>)]"

section \<open>Termination of the walk\<close>

lemma str_split_nonempty: "str_split sep n s \<noteq> []"
  by (induction sep n s rule: str_split.induct) (auto split: list.splits)

lemma str_join_split: "str_join sep (str_split sep n s) = s"
proof (induction sep n s rule: str_split.induct)
  case (3 sep n c cs)
  show ?case
  proof (cases "c = sep")
    case True
    with 3 show ?thesis
      by (cases "str_split sep n cs") (auto simp: str_split_nonempty)
  next
    case False
    with 3 show ?thesis
      by (cases "str_split sep (Suc n) cs"; cases "tl (str_split sep (Suc n) cs)")
         (auto simp: str_split_nonempty)
  qed
qed auto

lemma str_split_three:
  "str_split sep n s = [a, b, c] \<Longrightarrow> s = a @ sep # b @ sep # c"
  using str_join_split [of sep n s] by simp

lemma plugin_fqcns_mem:
  assumes "map_of rd c = Some cr" "map_of (plugin_data cr) pt = Some d" "map_of d p = Some v"
  shows "c @ ''.'' @ p \<in> plugin_fqcns rd pt"
proof -
  from assms(1) have "(c, cr) \<in> set rd" by (rule map_of_SomeD)
  moreover from assms(3) have "(p, v) \<in> set d" by (rule map_of_SomeD)
  ultimately show ?thesis using assms(2)
    unfolding plugin_fqcns_def
    by (auto intro!: bexI [of _ "(c, cr)"] simp: image_iff intro: bexI [of _ "(p, v)"])
qed

text \<open>What the loop body has done when it falls through to the next iteration.\<close>

lemma loop_body_Continue:
  assumes "loop_body rd pt fqcn pdata found path next_name = Continue found' path' next_name'"
  obtains ns cn pn cr prd pd where
    "next_name \<notin> found"
    "str_split CHR ''.'' 2 next_name = [ns, cn, pn]"
    "map_of rd (ns @ ''.'' @ cn) = Some cr"
    "map_of (plugin_data cr) pt = Some prd"
    "map_of prd pn = Some pd"
    "tombstone pd = None"
    "redirect pd = RedirectTo next_name'"
    "redirect_error pd = None" "\<not> redirect_tombstone pd" "\<not> redirect_dead_end pd"
    "found' = insert next_name found"
    "path' = path @ [(next_name, ns @ ''.'' @ cn, pn, Some pd, Some (ns @ ''.'' @ cn, pt))]"
  using assms unfolding loop_body_def Let_def
  by (auto split: if_splits list.splits option.splits redirect_t.splits sum.splits)

lemma walk_measure:
  assumes "loop_body rd pt fqcn pdata found path next_name = Continue found' path' next_name'"
  shows "card (plugin_fqcns rd pt - found') < card (plugin_fqcns rd pt - found)"
proof -
  from assms obtain ns cn pn cr prd pd where h:
    "next_name \<notin> found"
    "str_split CHR ''.'' 2 next_name = [ns, cn, pn]"
    "map_of rd (ns @ ''.'' @ cn) = Some cr"
    "map_of (plugin_data cr) pt = Some prd"
    "map_of prd pn = Some pd"
    "found' = insert next_name found"
    by (rule loop_body_Continue)
  have "next_name = (ns @ ''.'' @ cn) @ ''.'' @ pn"
    using str_split_three [OF h(2)] by simp
  with plugin_fqcns_mem [OF h(3-5)] have "next_name \<in> plugin_fqcns rd pt"
    by simp
  with h(1,6)
  have "plugin_fqcns rd pt - found' \<subset> plugin_fqcns rd pt - found"
    by auto
  moreover have "finite (plugin_fqcns rd pt - found)"
    unfolding plugin_fqcns_def by (rule finite_Diff) (rule finite_set)
  ultimately show ?thesis
    by (rule psubset_card_mono [rotated])
qed

termination walk
  by (relation "measure (\<lambda>(rd, pt, fqcn, pdata, found, path, name).
                   card (plugin_fqcns rd pt - found))")
     (simp_all add: walk_measure)

declare walk.simps [simp del]

lemma map_update_same:
  "map_of al k = Some x \<Longrightarrow> f (k, y) = f (k, x) \<Longrightarrow> map f (AList.update k y al) = map f al"
  by (induction al) (auto split: if_splits)

lemma owner_dict_set_plugin:
  "owner_dict (set_plugin rd a n v) b =
     (if b = a then map_option (AList.update n v) (owner_dict rd a) else owner_dict rd b)"
  by (cases a; cases b)
     (auto simp: owner_dict_def set_plugin_def AList.update_conv' split: option.splits)

lemma get_plugin_set_plugin:
  "get_plugin (set_plugin rd a n v) b m =
     (if b = a \<and> m = n \<and> owner_dict rd a \<noteq> None then Some v else get_plugin rd b m)"
  by (auto simp: get_plugin_def owner_dict_set_plugin AList.update_conv' split: option.splits)

lemma get_plugin_owner_assign:
  "get_plugin (owner_assign rd owner n v) b m =
     (if owner = Some b \<and> m = n \<and> (\<exists>d. owner_dict rd b = Some d \<and> d \<noteq> [])
      then Some v else get_plugin rd b m)"
  by (auto simp: owner_assign_def get_plugin_set_plugin split: option.splits)

lemma get_plugin_SomeD:
  "get_plugin rd a n = Some x \<Longrightarrow> \<exists>d. owner_dict rd a = Some d \<and> d \<noteq> [] \<and> map_of d n = Some x"
  by (auto simp: get_plugin_def split: option.splits)

lemma keys_of_set_plugin:
  assumes "get_plugin rd a n \<noteq> None"
  shows "keys_of (set_plugin rd a n v) = keys_of rd"
proof -
  from assms obtain cr d x where h: "map_of rd (fst a) = Some cr"
    "map_of (plugin_data cr) (snd a) = Some d" "map_of d n = Some x"
    by (auto simp: get_plugin_def owner_dict_def split: option.splits)
  have 1: "map fst (AList.update n v d) = map fst d"
    using h(3) by (rule map_update_same) simp
  have 2: "map (\<lambda>(pt, d). (pt, map fst d)) (AList.update (snd a) (AList.update n v d) (plugin_data cr))
      = map (\<lambda>(pt, d). (pt, map fst d)) (plugin_data cr)"
    using h(2) by (rule map_update_same) (simp add: 1)
  show ?thesis
    unfolding keys_of_def set_plugin_def h option.case
    using h(1) by (rule map_update_same) (simp add: 2)
qed

lemma keys_of_owner_assign:
  assumes "\<And>a. owner = Some a \<Longrightarrow> get_plugin rd a n \<noteq> None"
  shows "keys_of (owner_assign rd owner n v) = keys_of rd"
  using assms by (auto simp: owner_assign_def keys_of_set_plugin split: option.splits)

lemma map_of_keys_of:
  "map_of (keys_of rd) c = map_option (\<lambda>cr. map (\<lambda>(pt, d). (pt, map fst d)) (plugin_data cr)) (map_of rd c)"
  unfolding keys_of_def by (simp add: map_of_map)

lemma keys_of_fst: "map fst (keys_of rd) = map fst rd"
  by (simp add: keys_of_def case_prod_unfold)

lemma keys_of_types:
  assumes "keys_of rd' = keys_of rd"
  shows "map_option (\<lambda>cr. map fst (plugin_data cr)) (map_of rd' c)
       = map_option (\<lambda>cr. map fst (plugin_data cr)) (map_of rd c)"
proof -
  have "map_option (map fst) (map_of (keys_of rd') c) = map_option (map fst) (map_of (keys_of rd) c)"
    by (simp add: assms)
  then show ?thesis
    by (simp add: map_of_keys_of option.map_comp comp_def case_prod_unfold)
qed

lemma keys_of_names:
  assumes "keys_of rd' = keys_of rd"
  shows "map_option (map fst) (owner_dict rd' a) = map_option (map fst) (owner_dict rd a)"
proof -
  have "map_of (keys_of rd') (fst a) = map_of (keys_of rd) (fst a)"
    by (simp add: assms)
  then show ?thesis
    by (cases "map_of rd (fst a)"; cases "map_of rd' (fst a)")
       (auto simp: map_of_keys_of owner_dict_def map_of_map dest!: arg_cong [where f = "\<lambda>al. map_of al (snd a)"])
qed

lemma keys_of_get_plugin:
  assumes "keys_of rd' = keys_of rd"
  shows "get_plugin rd' a n = None \<longleftrightarrow> get_plugin rd a n = None"
proof -
  have "\<And>d d' :: plugin_dict. map fst d' = map fst d \<Longrightarrow> map_of d' n = None \<longleftrightarrow> map_of d n = None"
    by (metis map_of_eq_None_iff set_map)
  with keys_of_names [OF assms, of a] show ?thesis
    by (cases "owner_dict rd a"; cases "owner_dict rd' a") (auto simp: get_plugin_def)
qed

lemma rewritten_refl: "rewritten rd rd"
  by (simp add: rewritten_def)

lemma rewritten_trans:
  assumes "rewritten rd rd1" and "rewritten rd1 rd2"
  shows "rewritten rd rd2"
proof -
  have "keys_of rd2 = keys_of rd"
    using assms by (simp add: rewritten_def)
  moreover have "get_plugin rd a n = Some x \<or> written (fst a @ ''.'' @ n) x"
    if "get_plugin rd2 a n = Some x" for a n x
  proof -
    from that assms(2) have "get_plugin rd1 a n = Some x \<or> written (fst a @ ''.'' @ n) x"
      unfolding rewritten_def by blast
    with assms(1) show ?thesis
      unfolding rewritten_def by blast
  qed
  ultimately show ?thesis
    unfolding rewritten_def by blast
qed

lemma rewritten_keys: "rewritten rd rd' \<Longrightarrow> keys_of rd' = keys_of rd"
  by (simp add: rewritten_def)

lemma elt_ok_rewritten:
  assumes "rewritten rd rd'" and "elt_ok rd pt e"
  shows "elt_ok rd' pt e"
proof -
  from assms(1) have "keys_of rd' = keys_of rd"
    by (simp add: rewritten_def)
  then have eq: "\<And>a n. get_plugin rd' a n = None \<longleftrightarrow> get_plugin rd a n = None"
    by (rule keys_of_get_plugin)
  obtain fq cn pn ppd owner where e: "e = (fq, cn, pn, ppd, owner)"
    by (cases e) auto
  show ?thesis
  proof (cases owner)
    case None
    with assms(2) show ?thesis by (simp add: elt_ok_def e)
  next
    case (Some a)
    with assms(2) have "fq = cn @ ''.'' @ pn" "a = (cn, pt)" "get_plugin rd a pn \<noteq> None"
      by (auto simp: elt_ok_def e)
    moreover from this(3) have "get_plugin rd' a pn \<noteq> None"
      by (simp add: eq)
    ultimately show ?thesis
      by (simp add: elt_ok_def e Some)
  qed
qed

lemma rewritten_owner_assign:
  assumes "elt_ok rd pt (fq, cn, pn, ppd, owner)" and "written fq v"
  shows "rewritten rd (owner_assign rd owner pn v)"
proof -
  have "keys_of (owner_assign rd owner pn v) = keys_of rd"
    using assms(1) by (intro keys_of_owner_assign) (auto simp: elt_ok_def)
  moreover have "get_plugin rd a n = Some x \<or> written (fst a @ ''.'' @ n) x"
    if "get_plugin (owner_assign rd owner pn v) a n = Some x" for a n x
    using that assms by (auto simp: get_plugin_owner_assign elt_ok_def split: if_splits)
  ultimately show ?thesis
    unfolding rewritten_def by blast
qed

lemma cycle_for_rewritten:
  assumes "cycle_for fqcn err deps es (rd, pdata, chain) = (rd', pdata', chain')"
    and "\<forall>e \<in> set es. elt_ok rd pt (snd e)"
    and "\<exists>ys. chain = map (fst \<circ> snd) es @ ys"
    and "err \<noteq> None"
  shows "rewritten rd rd'
     \<and> (pdata' = pdata \<or> written fqcn pdata')
     \<and> (has_start fqcn (map snd es) \<longrightarrow> written fqcn pdata')"
  using assms(1-3)
proof (induction es arbitrary: rd pdata chain)
  case Nil
  then show ?case by (simp add: rewritten_refl has_start_def)
next
  case (Cons ie es)
  obtain index fq cn pn ppd owner where ie: "ie = (index, (fq, cn, pn, ppd, owner))"
    by (cases ie) auto
  from Cons.prems(3) obtain ys where chain: "chain = fq # map (fst \<circ> snd) es @ ys"
    by (auto simp: ie)
  have ok: "elt_ok rd pt (fq, cn, pn, ppd, owner)"
    using Cons.prems(2) by (simp add: ie)
  have tail: "\<exists>zs. drop 1 (chain @ [fq]) = map (fst \<circ> snd) es @ zs"
    by (simp add: chain)
  show ?case
  proof (cases ppd)
    case None
    with Cons.prems(1) have
      "cycle_for fqcn err deps es (rd, pdata, drop 1 (chain @ [fq])) = (rd', pdata', chain')"
      by (simp add: ie)
    from Cons.IH [OF this _ tail] Cons.prems(2) None show ?thesis
      by (auto simp: has_start_def ie)
  next
    case (Some p)
    define new where "new =
       \<lparr>action_plugin = action_plugin p, redirect = Ellipsis,
        redirect_chain = Some (chain @ [fq]),
        redirect_deprecations =
          tuple_or_none
            (map snd (filter (\<lambda>(idx, e). idx \<ge> index) deps)
             @ map snd (filter (\<lambda>(idx, e). idx < index) deps)),
        redirect_tombstone = False, redirect_dead_end = False, redirect_error = err,
        deprecation = deprecation p, tombstone = tombstone p\<rparr>"
    have wr: "written fq new"
      using assms(4) by (simp add: written_def new_def chain clean_outcome_def)
    have rw: "rewritten rd (owner_assign rd owner pn new)"
      using ok wr by (rule rewritten_owner_assign)
    from Cons.prems(1) have run:
      "cycle_for fqcn err deps es
         (owner_assign rd owner pn new, if fq = fqcn then new else pdata, drop 1 (chain @ [fq]))
       = (rd', pdata', chain')"
      unfolding ie Some new_def by (simp only: cycle_for.simps Let_def option.case)
    have oks: "\<forall>e \<in> set es. elt_ok (owner_assign rd owner pn new) pt (snd e)"
      using Cons.prems(2) rw by (auto intro: elt_ok_rewritten)
    from Cons.IH [OF run oks tail] have ih:
      "rewritten (owner_assign rd owner pn new) rd'"
      "pdata' = (if fq = fqcn then new else pdata) \<or> written fqcn pdata'"
      "has_start fqcn (map snd es) \<longrightarrow> written fqcn pdata'"
      by auto
    have "rewritten rd rd'"
      using rw ih(1) by (rule rewritten_trans)
    moreover have "pdata' = pdata \<or> written fqcn pdata'"
      using ih(2) wr by (auto split: if_splits)
    moreover have "written fqcn pdata'" if "has_start fqcn (map snd (ie # es))"
    proof (cases "fq = fqcn")
      case True
      with ih(2) wr show ?thesis by auto
    next
      case False
      with that have "has_start fqcn (map snd es)"
        by (auto simp: has_start_def ie)
      with ih(3) show ?thesis by simp
    qed
    ultimately show ?thesis by blast
  qed
qed

lemma prefix_for_rewritten:
  assumes "prefix_for fqcn redir tomb dead err es (rd, pdata, chain, deps) = (rd', pdata', chain', deps')"
    and "\<forall>e \<in> set es. elt_ok rd pt e"
    and "redir \<noteq> Absent"
    and "chain_ends redir tomb dead err es chain"
    and "redir = Ellipsis \<longrightarrow> err \<noteq> None \<or> tomb \<or> dead"
  shows "rewritten rd rd'
     \<and> (pdata' = pdata \<or> written fqcn pdata')
     \<and> (has_start fqcn es \<longrightarrow> written fqcn pdata')"
  using assms(1,2,4)
proof (induction es arbitrary: rd pdata chain deps)
  case Nil
  then show ?case by (simp add: rewritten_refl has_start_def)
next
  case (Cons e es)
  obtain fq cn pn ppd owner where e: "e = (fq, cn, pn, ppd, owner)"
    by (cases e) auto
  have ok: "elt_ok rd pt (fq, cn, pn, ppd, owner)"
    using Cons.prems(2) by (simp add: e)
  have lst: "last (fq # or_empty chain) = t" if "clean_outcome redir tomb dead err t" for t
    using Cons.prems(3) that
    by (cases chain) (auto simp: chain_ends_def e or_empty_def)
  then have ends: "chain_ends redir tomb dead err es (Some (fq # or_empty chain))"
    by (simp add: chain_ends_def)
  show ?case
  proof (cases ppd)
    case None
    with Cons.prems(1) have
      "prefix_for fqcn redir tomb dead err es (rd, pdata, Some (fq # or_empty chain), deps)
       = (rd', pdata', chain', deps')"
      by (simp add: e)
    from Cons.IH [OF this _ ends] Cons.prems(2) None show ?thesis
      by (auto simp: has_start_def e)
  next
    case (Some p)
    define deps1 where "deps1 =
      (case deprecation p of None \<Rightarrow> deps | Some d \<Rightarrow> Some ((fq, d) # or_empty deps))"
    define new where "new =
       \<lparr>action_plugin = action_plugin p, redirect = redir,
        redirect_chain = Some (fq # or_empty chain),
        redirect_deprecations = deps1,
        redirect_tombstone = tomb, redirect_dead_end = dead, redirect_error = err,
        deprecation = deprecation p, tombstone = tombstone p\<rparr>"
    have wr: "written fq new"
      using assms(3,5) lst by (simp add: written_def new_def)
    have rw: "rewritten rd (owner_assign rd owner pn new)"
      using ok wr by (rule rewritten_owner_assign)
    from Cons.prems(1) have run:
      "prefix_for fqcn redir tomb dead err es
         (owner_assign rd owner pn new, if fq = fqcn then new else pdata,
          Some (fq # or_empty chain), deps1)
       = (rd', pdata', chain', deps')"
      unfolding e Some new_def deps1_def by (simp only: prefix_for.simps Let_def option.case)
    have oks: "\<forall>e \<in> set es. elt_ok (owner_assign rd owner pn new) pt e"
      using Cons.prems(2) rw by (auto intro: elt_ok_rewritten)
    from Cons.IH [OF run oks ends] have ih:
      "rewritten (owner_assign rd owner pn new) rd'"
      "pdata' = (if fq = fqcn then new else pdata) \<or> written fqcn pdata'"
      "has_start fqcn es \<longrightarrow> written fqcn pdata'"
      by auto
    have "rewritten rd rd'"
      using rw ih(1) by (rule rewritten_trans)
    moreover have "pdata' = pdata \<or> written fqcn pdata'"
      using ih(2) wr by (auto split: if_splits)
    moreover have "written fqcn pdata'" if "has_start fqcn (e # es)"
    proof (cases "fq = fqcn")
      case True
      with ih(2) wr show ?thesis by auto
    next
      case False
      with that have "has_start fqcn es"
        by (auto simp: has_start_def e)
      with ih(3) show ?thesis by simp
    qed
    ultimately show ?thesis by blast
  qed
qed

lemma has_start_append: "has_start fqcn (xs @ ys) \<longleftrightarrow> has_start fqcn xs \<or> has_start fqcn ys"
  by (auto simp: has_start_def)

lemma has_start_rev: "has_start fqcn (rev xs) \<longleftrightarrow> has_start fqcn xs"
  by (simp add: has_start_def)

lemma map_snd_enumerate: "map snd (enumerate n xs) = xs"
  by (induction xs arbitrary: n) auto

lemma found_cycle_exit_ok:
  assumes "found_cycle rd fqcn pdata path next_name = Inr l"
    and "\<forall>e \<in> set path. elt_ok rd pt e"
  shows "exit_ok rd pt fqcn path l"
proof -
  from assms(1) obtain i where i: "start_index_of next_name path = Some i"
    by (auto simp: found_cycle_def split: option.splits)
  define loop where "loop = drop i path"
  define es where "es = enumerate 0 loop"
  obtain rd' pdata' chain' where run:
    "cycle_for fqcn (Some ''Detected circular redirect'') (deprecations_w_index es) es
       (rd, pdata, map fst loop) = (rd', pdata', chain')"
    by (cases "cycle_for fqcn (Some ''Detected circular redirect'') (deprecations_w_index es) es
       (rd, pdata, map fst loop)") auto
  from assms(1) have l: "var_routing_data l = rd'" "var_plugin_data l = pdata'"
    "var_redirection_list l = take i path" "var_is_loop l" "var_redirect_error l \<noteq> None"
    using run by (auto simp: found_cycle_def i Let_def loop_def es_def)
  have snd_es: "map snd es = loop"
    by (simp add: es_def map_snd_enumerate)
  have "\<forall>e \<in> set es. elt_ok rd pt (snd e)"
  proof
    fix e assume "e \<in> set es"
    then have "snd e \<in> set (map snd es)" by simp
    then have "snd e \<in> set path"
      unfolding snd_es loop_def by (rule in_set_dropD)
    with assms(2) show "elt_ok rd pt (snd e)" by simp
  qed
  moreover have "\<exists>ys. map fst loop = map (fst \<circ> snd) es @ ys"
    using snd_es by (metis append_Nil2 map_map)
  ultimately have cyc: "rewritten rd rd'" "has_start fqcn loop \<longrightarrow> written fqcn pdata'"
    using cycle_for_rewritten [OF run, of pt] by (simp_all add: snd_es)
  have "\<forall>e \<in> set (take i path). elt_ok rd' pt e"
    using assms(2) cyc(1) by (auto dest: in_set_takeD intro: elt_ok_rewritten)
  moreover have "written fqcn pdata' \<or> has_start fqcn (take i path)" if "has_start fqcn path"
  proof -
    from that have "has_start fqcn (take i path @ drop i path)" by simp
    then have "has_start fqcn (take i path) \<or> has_start fqcn loop"
      unfolding has_start_append loop_def .
    with cyc(2) show ?thesis by blast
  qed
  ultimately show ?thesis
    using cyc(1) by (simp add: exit_ok_def l chain_ends_def clean_outcome_def)
qed

text \<open>How the loop body can end in a \<^verbatim>\<open>break\<close>.\<close>

lemma loop_body_Break:
  assumes "loop_body rd pt fqcn pdata found path next_name = Break l"
  obtains (cycle) "next_name \<in> found" "found_cycle rd fqcn pdata path next_name = Inr l"
  | (stop) "next_name \<notin> found" "var_routing_data l = rd" "var_plugin_data l = pdata"
      "var_redirection_list l = path"
      "var_redirect_tombstone l \<or> var_redirect_dead_end l \<or> var_redirect_error l \<noteq> None"
  | (append) ns cn pn ppd where "next_name \<notin> found" "var_routing_data l = rd"
      "var_plugin_data l = pdata" "str_split CHR ''.'' 2 next_name = [ns, cn, pn]"
      "var_redirection_list l = path @ [(next_name, ns @ ''.'' @ cn, pn, ppd, None)]"
      "var_redirect_chain l = None" "var_next_name l = next_name" "\<not> var_is_loop l"
  using assms unfolding loop_body_def Let_def
  by (auto split: if_splits list.splits option.splits redirect_t.splits sum.splits)

lemma loop_body_exit_ok:
  assumes "loop_body rd pt fqcn pdata found path next_name = Break l"
    and "\<forall>e \<in> set path. elt_ok rd pt e"
  shows "exit_ok rd pt fqcn path l"
  using assms(1)
proof (cases rule: loop_body_Break)
  case cycle
  from cycle(2) assms(2) show ?thesis by (rule found_cycle_exit_ok)
next
  case stop
  with assms(2) show ?thesis
    by (auto simp: exit_ok_def rewritten_refl chain_ends_def clean_outcome_def)
next
  case (append ns cn pn ppd)
  have "elt_ok rd pt (next_name, ns @ ''.'' @ cn, pn, ppd, None)"
    using str_split_three [OF append(4)] by (simp add: elt_ok_def)
  with append assms(2) show ?thesis
    by (auto simp: exit_ok_def rewritten_refl has_start_append chain_ends_def clean_outcome_def)
qed

lemma walk_exit_ok:
  assumes "walk rd pt fqcn pdata found path next_name = Inr l"
    and "\<forall>e \<in> set path. elt_ok rd pt e"
  shows "exit_ok rd pt fqcn path l"
  using assms
proof (induction rd pt fqcn pdata found path next_name rule: walk.induct)
  case (1 rd pt fqcn pdata found path next_name)
  show ?case
  proof (cases "loop_body rd pt fqcn pdata found path next_name")
    case (Continue found' path' next_name')
    then obtain ns cn pn cr prd pd where h:
      "str_split CHR ''.'' 2 next_name = [ns, cn, pn]"
      "map_of rd (ns @ ''.'' @ cn) = Some cr"
      "map_of (plugin_data cr) pt = Some prd"
      "map_of prd pn = Some pd"
      "path' = path @ [(next_name, ns @ ''.'' @ cn, pn, Some pd, Some (ns @ ''.'' @ cn, pt))]"
      by (rule loop_body_Continue)
    have "get_plugin rd (ns @ ''.'' @ cn, pt) pn = Some pd"
      using h(2-4) by (simp add: get_plugin_def owner_dict_def)
    then have "elt_ok rd pt (next_name, ns @ ''.'' @ cn, pn, Some pd, Some (ns @ ''.'' @ cn, pt))"
      using str_split_three [OF h(1)] by (simp add: elt_ok_def)
    with "1.prems"(2) have oks: "\<forall>e \<in> set path'. elt_ok rd pt e"
      by (simp add: h(5))
    from "1.prems"(1) have "walk rd pt fqcn pdata found' path' next_name' = Inr l"
      by (simp add: walk.simps [of rd pt fqcn pdata found path] Continue)
    from "1.IH" [OF Continue this oks] show ?thesis
      by (simp add: exit_ok_def h(5) has_start_append)
  next
    case (Break l')
    with "1.prems"(1) have "l' = l"
      by (simp add: walk.simps [of rd pt fqcn pdata found path])
    with Break "1.prems"(2) show ?thesis
      by (simp add: loop_body_exit_ok)
  next
    case (Raise e)
    with "1.prems"(1) show ?thesis
      by (simp add: walk.simps [of rd pt fqcn pdata found path])
  qed
qed

lemma complete_redirect_done:
  "already_done p \<Longrightarrow> complete_redirect p rd c pt n = Inr (p, rd)"
  by (auto simp: already_done_def complete_redirect_def split: redirect_t.splits)

lemma written_done: "written fq p \<Longrightarrow> already_done p"
  by (auto simp: written_def already_done_def)

lemma complete_redirect_rewritten:
  assumes "complete_redirect p rd c pt n = Inr (p', rd')"
  shows "rewritten rd rd' \<and> ((already_done p \<and> p' = p \<and> rd' = rd) \<or> written (c @ ''.'' @ n) p')"
proof (cases "already_done p")
  case True
  with assms show ?thesis
    by (simp add: complete_redirect_done rewritten_refl)
next
  case False
  let ?fqcn = "c @ ''.'' @ n"
  from False obtain target where t: "redirect p = RedirectTo target" "redirect_chain p = None"
    by (cases "redirect p") (auto simp: already_done_def)
  from assms obtain l where w:
    "walk rd pt ?fqcn p {?fqcn} [(?fqcn, c, n, Some p, None)] target = Inr l"
    by (auto simp: complete_redirect_def t Let_def split: sum.splits)
  let ?redir = "if var_is_loop l then Ellipsis else RedirectTo (var_next_name l)"
  from assms w obtain chain' deps' where pf:
    "prefix_for ?fqcn ?redir (var_redirect_tombstone l) (var_redirect_dead_end l)
       (var_redirect_error l) (rev (var_redirection_list l))
       (var_routing_data l, var_plugin_data l, var_redirect_chain l, var_redirect_deprecations l)
     = (rd', p', chain', deps')"
    by (auto simp: complete_redirect_def t Let_def split: prod.splits)
  have "\<forall>e \<in> set [(?fqcn, c, n, Some p, None)]. elt_ok rd pt e"
    by (simp add: elt_ok_def)
  with w have ex: "exit_ok rd pt ?fqcn [(?fqcn, c, n, Some p, None)] l"
    by (rule walk_exit_ok)
  have hs: "has_start ?fqcn [(?fqcn, c, n, Some p, None)]"
    by (auto simp: has_start_def)
  from ex have oks: "\<forall>e \<in> set (rev (var_redirection_list l)). elt_ok (var_routing_data l) pt e"
    by (simp add: exit_ok_def)
  have "?redir \<noteq> Absent" by simp
  moreover from ex have "chain_ends ?redir (var_redirect_tombstone l) (var_redirect_dead_end l)
      (var_redirect_error l) (rev (var_redirection_list l)) (var_redirect_chain l)"
    by (simp add: exit_ok_def)
  moreover from ex have "?redir = Ellipsis \<longrightarrow> var_redirect_error l \<noteq> None
      \<or> var_redirect_tombstone l \<or> var_redirect_dead_end l"
    by (simp add: exit_ok_def)
  ultimately have pr:
    "rewritten (var_routing_data l) rd'"
    "p' = var_plugin_data l \<or> written ?fqcn p'"
    "has_start ?fqcn (var_redirection_list l) \<longrightarrow> written ?fqcn p'"
    using prefix_for_rewritten [OF pf oks] by (simp_all add: has_start_rev)
  from ex hs have "written ?fqcn (var_plugin_data l) \<or> has_start ?fqcn (var_redirection_list l)"
    by (simp add: exit_ok_def)
  with pr(2,3) have "written ?fqcn p'" by auto
  moreover from ex pr(1) have "rewritten rd rd'"
    by (auto simp: exit_ok_def intro: rewritten_trans)
  ultimately show ?thesis by simp
qed

lemma rewritten_get_plugin:
  "rewritten rd rd' \<Longrightarrow> get_plugin rd' a n = None \<longleftrightarrow> get_plugin rd a n = None"
  using keys_of_get_plugin [of rd' rd a n] by (simp add: rewritten_def)

lemma rewritten_owner_dict:
  assumes "rewritten rd rd'"
  shows "owner_dict rd' a = None \<longleftrightarrow> owner_dict rd a = None"
  using keys_of_names [OF rewritten_keys [OF assms], of a]
  by (cases "owner_dict rd a"; cases "owner_dict rd' a") auto

lemma done_at_rewritten:
  assumes "rewritten rd rd'" and "done_at rd a n"
  shows "done_at rd' a n"
proof -
  from assms(2) obtain x where x: "get_plugin rd a n = Some x" "already_done x"
    by (auto simp: done_at_def)
  from x(1) have "get_plugin rd' a n \<noteq> None"
    by (simp add: rewritten_get_plugin [OF assms(1)])
  then obtain y where y: "get_plugin rd' a n = Some y" by auto
  with assms(1) have "get_plugin rd a n = Some y \<or> written (fst a @ ''.'' @ n) y"
    unfolding rewritten_def by blast
  with x have "already_done y"
    by (auto intro: written_done)
  with y show ?thesis by (auto simp: done_at_def)
qed

lemma rewritten_set_plugin:
  assumes "get_plugin rd a n \<noteq> None"
    and "get_plugin rd a n = Some v \<or> written (fst a @ ''.'' @ n) v"
  shows "rewritten rd (set_plugin rd a n v)"
proof -
  have "keys_of (set_plugin rd a n v) = keys_of rd"
    using assms(1) by (rule keys_of_set_plugin)
  moreover have "get_plugin rd b m = Some x \<or> written (fst b @ ''.'' @ m) x"
    if "get_plugin (set_plugin rd a n v) b m = Some x" for b m x
    using that assms(2) by (auto simp: get_plugin_set_plugin split: if_splits)
  ultimately show ?thesis
    unfolding rewritten_def by blast
qed

lemma set_plugin_same:
  assumes "get_plugin rd a n = Some v"
  shows "set_plugin rd a n v = rd"
proof -
  from assms obtain cr d where h: "map_of rd (fst a) = Some cr"
    "map_of (plugin_data cr) (snd a) = Some d" "map_of d n = Some v"
    by (auto simp: get_plugin_def owner_dict_def split: option.splits)
  have "AList.update n v d = d"
    using h(3) by (rule AList.update_triv)
  moreover have "AList.update (snd a) d (plugin_data cr) = plugin_data cr"
    using h(2) by (rule AList.update_triv)
  moreover have "AList.update (fst a) cr rd = rd"
    using h(1) by (rule AList.update_triv)
  ultimately show ?thesis
    by (simp add: set_plugin_def h)
qed

text \<open>One step of \<^const>\<open>complete_names\<close>: resolve one plugin and store the result.\<close>

lemma complete_step:
  assumes "get_plugin rd (c, pt) n = Some p"
    and "complete_redirect p rd c pt n = Inr (p', rd1)"
  shows "rewritten rd (set_plugin rd1 (c, pt) n p')"
    and "done_at (set_plugin rd1 (c, pt) n p') (c, pt) n"
proof -
  from complete_redirect_rewritten [OF assms(2)] have rw: "rewritten rd rd1"
    and alt: "(already_done p \<and> p' = p \<and> rd1 = rd) \<or> written (c @ ''.'' @ n) p'"
    by simp_all
  from assms(1) have ne: "get_plugin rd1 (c, pt) n \<noteq> None"
    by (simp add: rewritten_get_plugin [OF rw])
  from alt assms(1) have "get_plugin rd1 (c, pt) n = Some p' \<or> written (fst (c, pt) @ ''.'' @ n) p'"
    by auto
  with ne have "rewritten rd1 (set_plugin rd1 (c, pt) n p')"
    by (rule rewritten_set_plugin)
  with rw show "rewritten rd (set_plugin rd1 (c, pt) n p')"
    by (rule rewritten_trans)
  from alt have "already_done p'"
    by (auto intro: written_done)
  moreover from ne have "owner_dict rd1 (c, pt) \<noteq> None"
    by (auto simp: get_plugin_def split: option.splits)
  ultimately show "done_at (set_plugin rd1 (c, pt) n p') (c, pt) n"
    by (simp add: done_at_def get_plugin_set_plugin)
qed

lemma complete_names_rewritten:
  assumes "complete_names rd c pt names = Inr rd'"
  shows "rewritten rd rd' \<and> (\<forall>n \<in> set names. done_at rd' (c, pt) n)"
  using assms
proof (induction names arbitrary: rd)
  case Nil
  then show ?case by (simp add: rewritten_refl)
next
  case (Cons n names)
  from Cons.prems obtain p p' rd1 where h:
    "get_plugin rd (c, pt) n = Some p"
    "complete_redirect p rd c pt n = Inr (p', rd1)"
    "complete_names (set_plugin rd1 (c, pt) n p') c pt names = Inr rd'"
    by (auto split: option.splits sum.splits)
  note step = complete_step [OF h(1,2)]
  from Cons.IH [OF h(3)] have ih: "rewritten (set_plugin rd1 (c, pt) n p') rd'"
    "\<forall>n \<in> set names. done_at rd' (c, pt) n"
    by simp_all
  have "rewritten rd rd'"
    using step(1) ih(1) by (rule rewritten_trans)
  moreover have "done_at rd' (c, pt) n"
    using ih(1) step(2) by (rule done_at_rewritten)
  ultimately show ?case using ih(2) by simp
qed

lemma complete_types_rewritten:
  assumes "complete_types rd c types = Inr rd'"
  shows "rewritten rd rd'
     \<and> (\<forall>pt \<in> set types. \<forall>n. get_plugin rd' (c, pt) n \<noteq> None \<longrightarrow> done_at rd' (c, pt) n)"
  using assms
proof (induction types arbitrary: rd)
  case Nil
  then show ?case by (simp add: rewritten_refl)
next
  case (Cons pt types)
  from Cons.prems obtain d rd1 where h:
    "owner_dict rd (c, pt) = Some d"
    "complete_names rd c pt (map fst d) = Inr rd1"
    "complete_types rd1 c types = Inr rd'"
    by (auto split: option.splits sum.splits)
  from complete_names_rewritten [OF h(2)] have nm: "rewritten rd rd1"
    "\<forall>n \<in> set (map fst d). done_at rd1 (c, pt) n"
    by simp_all
  from Cons.IH [OF h(3)] have ih: "rewritten rd1 rd'"
    "\<forall>pt \<in> set types. \<forall>n. get_plugin rd' (c, pt) n \<noteq> None \<longrightarrow> done_at rd' (c, pt) n"
    by simp_all
  have rw: "rewritten rd rd'"
    using nm(1) ih(1) by (rule rewritten_trans)
  have "done_at rd' (c, pt) n" if "get_plugin rd' (c, pt) n \<noteq> None" for n
  proof -
    from that have "get_plugin rd (c, pt) n \<noteq> None"
      by (simp add: rewritten_get_plugin [OF rw])
    then have "map_of d n \<noteq> None"
      by (simp add: get_plugin_def h(1))
    then have "n \<in> set (map fst d)"
      by (auto simp: map_of_eq_None_iff)
    with nm(2) have "done_at rd1 (c, pt) n" by blast
    with ih(1) show ?thesis by (rule done_at_rewritten)
  qed
  with rw ih(2) show ?case by auto
qed

lemma complete_redirects_for_collection_rewritten:
  assumes "complete_redirects_for_collection rd c = Inr rd'"
  shows "rewritten rd rd'
     \<and> (\<forall>pt n. get_plugin rd' (c, pt) n \<noteq> None \<longrightarrow> done_at rd' (c, pt) n)"
proof (cases "map_of rd c")
  case None
  with assms have "rd' = rd"
    by (simp add: complete_redirects_for_collection_def)
  with None show ?thesis
    by (simp add: rewritten_refl get_plugin_def owner_dict_def)
next
  case (Some cr)
  with assms have run: "complete_types rd c (map fst (plugin_data cr)) = Inr rd'"
    by (simp add: complete_redirects_for_collection_def)
  from complete_types_rewritten [OF run] have ct: "rewritten rd rd'"
    "\<forall>pt \<in> set (map fst (plugin_data cr)). \<forall>n.
        get_plugin rd' (c, pt) n \<noteq> None \<longrightarrow> done_at rd' (c, pt) n"
    by simp_all
  have "done_at rd' (c, pt) n" if "get_plugin rd' (c, pt) n \<noteq> None" for pt n
  proof -
    from that have "get_plugin rd (c, pt) n \<noteq> None"
      by (simp add: rewritten_get_plugin [OF ct(1)])
    then have "map_of (plugin_data cr) pt \<noteq> None"
      by (auto simp: get_plugin_def owner_dict_def Some split: option.splits)
    then have "pt \<in> set (map fst (plugin_data cr))"
      by (auto simp: map_of_eq_None_iff)
    with ct(2) that show ?thesis by blast
  qed
  with ct(1) show ?thesis by blast
qed

lemma complete_collections_rewritten:
  assumes "complete_collections rd names = Inr rd'"
  shows "rewritten rd rd'
     \<and> (\<forall>c \<in> set names. \<forall>pt n. get_plugin rd' (c, pt) n \<noteq> None \<longrightarrow> done_at rd' (c, pt) n)"
  using assms
proof (induction names arbitrary: rd)
  case Nil
  then show ?case by (simp add: rewritten_refl)
next
  case (Cons c names)
  from Cons.prems obtain rd1 where h:
    "complete_redirects_for_collection rd c = Inr rd1"
    "complete_collections rd1 names = Inr rd'"
    by (auto split: sum.splits)
  from complete_redirects_for_collection_rewritten [OF h(1)] have one: "rewritten rd rd1"
    "\<forall>pt n. get_plugin rd1 (c, pt) n \<noteq> None \<longrightarrow> done_at rd1 (c, pt) n"
    by simp_all
  from Cons.IH [OF h(2)] have ih: "rewritten rd1 rd'"
    "\<forall>c \<in> set names. \<forall>pt n. get_plugin rd' (c, pt) n \<noteq> None \<longrightarrow> done_at rd' (c, pt) n"
    by simp_all
  have "done_at rd' (c, pt) n" if "get_plugin rd' (c, pt) n \<noteq> None" for pt n
  proof -
    from that have "get_plugin rd1 (c, pt) n \<noteq> None"
      by (simp add: rewritten_get_plugin [OF ih(1)])
    with one(2) have "done_at rd1 (c, pt) n" by simp
    with ih(1) show ?thesis by (rule done_at_rewritten)
  qed
  moreover have "rewritten rd rd'"
    using one(1) ih(1) by (rule rewritten_trans)
  ultimately show ?case using ih(2) by auto
qed

lemma complete_redirects_rewritten:
  assumes "complete_redirects rd = Inr rd'"
  shows "rewritten rd rd'" and "all_done rd'"
proof -
  from assms have run: "complete_collections rd (map fst rd) = Inr rd'"
    by (simp add: complete_redirects_def)
  from complete_collections_rewritten [OF run] have cc: "rewritten rd rd'"
    "\<forall>c \<in> set (map fst rd). \<forall>pt n. get_plugin rd' (c, pt) n \<noteq> None \<longrightarrow> done_at rd' (c, pt) n"
    by simp_all
  show "rewritten rd rd'" by fact
  show "all_done rd'"
    unfolding all_done_def
  proof (intro allI impI)
    fix a n x assume x: "get_plugin rd' a n = Some x"
    obtain c pt where a: "a = (c, pt)" by (cases a) auto
    from x have "get_plugin rd a n \<noteq> None"
      using rewritten_get_plugin [OF cc(1), of a n] by simp
    then have "map_of rd c \<noteq> None"
      by (auto simp: get_plugin_def owner_dict_def a split: option.splits)
    then have "c \<in> set (map fst rd)"
      by (auto simp: map_of_eq_None_iff)
    with cc(2) x have "done_at rd' (c, pt) n"
      unfolding a by blast
    with x show "already_done x"
      by (simp add: done_at_def a)
  qed
qed

text \<open>On a catalog whose records are all done, every pass is the identity.\<close>

lemma complete_names_all_done:
  assumes "all_done rd" and "\<forall>n \<in> set names. get_plugin rd (c, pt) n \<noteq> None"
  shows "complete_names rd c pt names = Inr rd"
  using assms(2)
proof (induction names)
  case Nil
  show ?case by simp
next
  case (Cons n names)
  then obtain p where p: "get_plugin rd (c, pt) n = Some p" by auto
  with assms(1) have "already_done p" by (auto simp: all_done_def)
  then have "complete_redirect p rd c pt n = Inr (p, rd)"
    by (rule complete_redirect_done)
  with p Cons show ?case
    by (simp add: set_plugin_same)
qed

lemma complete_types_all_done:
  assumes "all_done rd" and "\<forall>pt \<in> set types. owner_dict rd (c, pt) \<noteq> None"
  shows "complete_types rd c types = Inr rd"
  using assms(2)
proof (induction types)
  case Nil
  show ?case by simp
next
  case (Cons pt types)
  then obtain d where d: "owner_dict rd (c, pt) = Some d" by auto
  have "\<forall>n \<in> set (map fst d). get_plugin rd (c, pt) n \<noteq> None"
    by (auto simp: get_plugin_def d map_of_eq_None_iff)
  with assms(1) have "complete_names rd c pt (map fst d) = Inr rd"
    by (rule complete_names_all_done)
  with d Cons show ?case by simp
qed

lemma complete_redirects_for_collection_all_done:
  assumes "all_done rd"
  shows "complete_redirects_for_collection rd c = Inr rd"
proof (cases "map_of rd c")
  case None
  then show ?thesis by (simp add: complete_redirects_for_collection_def)
next
  case (Some cr)
  have "\<forall>pt \<in> set (map fst (plugin_data cr)). owner_dict rd (c, pt) \<noteq> None"
    by (auto simp: owner_dict_def Some map_of_eq_None_iff)
  with assms have "complete_types rd c (map fst (plugin_data cr)) = Inr rd"
    by (rule complete_types_all_done)
  with Some show ?thesis by (simp add: complete_redirects_for_collection_def)
qed

lemma complete_collections_all_done:
  "all_done rd \<Longrightarrow> complete_collections rd names = Inr rd"
  by (induction names) (simp_all add: complete_redirects_for_collection_all_done)

section \<open>Claims about the metadata loader and the child environment\<close>

text \<open>
  Claim C6. When \<^verbatim>\<open>_parse_plugin_data\<close> parses a mapping whose \<^verbatim>\<open>redirect\<close> is a
  string equal to the plugin's own FQN (and whose deprecation, tombstone and
  action plugin entries have the required shape, so that no \<^verbatim>\<open>ValueError\<close> is raised),
  it returns a record with \<^verbatim>\<open>redirect == ...\<close>, \<^verbatim>\<open>redirect_chain == (fqcn, fqcn)\<close>,
  \<^verbatim>\<open>redirect_error == "Detected circular redirect"\<close> and \<^verbatim>\<open>redirect_deprecations\<close>
  equal to \<^verbatim>\<open>((fqcn, deprecation),)\<close> when the plugin has a deprecation and absent
  otherwise; the resolver returns such a record, and the catalog, unchanged.
\<close>

theorem self_redirect_is_marked_by_loader:
  assumes "map_of m ''redirect'' = Some (YStr (own_name @ ''.'' @ plugin_name))"
    and "load_removal_data m ''deprecation'' = Inr depr"
    and "load_removal_data m ''tombstone'' = Inr tomb"
    and "real_plugin_type = ''module'' \<Longrightarrow>
           map_of m ''action_plugin'' = None \<or> (\<exists>s. map_of m ''action_plugin'' = Some (YStr s))"
  shows "\<exists>pr. parse_plugin_data (YMap m) own_name real_plugin_type plugin_name = Inr pr
     \<and> redirect pr = Ellipsis
     \<and> redirect_chain pr = Some [own_name @ ''.'' @ plugin_name, own_name @ ''.'' @ plugin_name]
     \<and> redirect_error pr = Some ''Detected circular redirect''
     \<and> deprecation pr = depr
     \<and> redirect_deprecations pr =
          (case depr of None \<Rightarrow> None | Some d \<Rightarrow> Some [(own_name @ ''.'' @ plugin_name, d)])
     \<and> (\<forall>rd c pt n. complete_redirect pr rd c pt n = Inr (pr, rd))"
proof -
  let ?fq = "own_name @ ''.'' @ plugin_name"
  from assms(1) have ne: "m \<noteq> []" by auto
  obtain act where act:
    "(if real_plugin_type = ''module''
      then (case map_of m ''action_plugin'' of
              None \<Rightarrow> Inr None
            | Some (YStr s) \<Rightarrow> Inr (Some s)
            | Some _ \<Rightarrow> Inl ValueError)
      else Inr None) = Inr act"
    using assms(4) by (cases "real_plugin_type = ''module''") auto
  let ?pr = "\<lparr>action_plugin = act, redirect = Ellipsis,
               redirect_chain = Some [?fq, ?fq],
               redirect_deprecations = (case depr of None \<Rightarrow> None | Some d \<Rightarrow> Some [(?fq, d)]),
               redirect_tombstone = False, redirect_dead_end = False,
               redirect_error = Some ''Detected circular redirect'',
               deprecation = depr, tombstone = tomb\<rparr>"
  have "parse_plugin_data (YMap m) own_name real_plugin_type plugin_name = Inr ?pr"
    unfolding parse_plugin_data_def Let_def
    by (simp only: truthy.simps ne not_False_eq_True not_True_eq_False if_False if_True
          yaml.case assms(1-3) act sum.case option.case refl)
  moreover have "\<forall>rd c pt n. complete_redirect ?pr rd c pt n = Inr (?pr, rd)"
    by (simp add: complete_redirect_def)
  ultimately show ?thesis
    by (intro exI [of _ ?pr]) simp
qed

theorem self_redirect_is_marked_by_loader_witness:
  "\<exists>pr. parse_plugin_data
          (YMap [(''redirect'', YStr ''foo.bar.self_loop''),
                 (''deprecation'', YMap [(''warning_text'', YStr ''old'')])])
          ''foo.bar'' ''module'' ''self_loop'' = Inr pr
     \<and> redirect pr = Ellipsis
     \<and> redirect_chain pr = Some [''foo.bar.self_loop'', ''foo.bar.self_loop'']
     \<and> redirect_error pr = Some ''Detected circular redirect''
     \<and> deprecation pr =
          Some \<lparr>warning_text = Some ''old'', removal_version = None, removal_date = None\<rparr>
     \<and> redirect_deprecations pr =
          Some [(''foo.bar.self_loop'',
                 \<lparr>warning_text = Some ''old'', removal_version = None, removal_date = None\<rparr>)]
     \<and> (\<forall>rd c pt n. complete_redirect pr rd c pt n = Inr (pr, rd))"
  using self_redirect_is_marked_by_loader
    [of "[(''redirect'', YStr ''foo.bar.self_loop''),
          (''deprecation'', YMap [(''warning_text'', YStr ''old'')])]"
        "''foo.bar''" "''self_loop''"
        "Some \<lparr>warning_text = Some ''old'', removal_version = None, removal_date = None\<rparr>"
        None "''module''"]
  by (simp add: load_removal_data_def get_optional_str_def get_removal_date_def)

text \<open>
  Claim C8, as the code has it. For a non-empty \<^verbatim>\<open>collections_path\<close> in compat mode
  the environment holds \<^verbatim>\<open>ANSIBLE_COLLECTIONS_PATH\<close>, but the compat assignment goes
  to the key \<^verbatim>\<open>"_COLLECTIONS_PATH_ENV_VAR_COMPAT"\<close>: unless the parent environment
  already had it, \<^verbatim>\<open>ANSIBLE_COLLECTIONS_PATHS\<close> (the value of the module constant of
  that name) is not set.
\<close>

theorem prepare_env_compat_key:
  assumes "p \<noteq> []"
    and "only_pass_env_updates \<or> map_of os_environ ''ANSIBLE_COLLECTIONS_PATHS'' = None"
  shows "\<exists>env. prepare_env os_environ (Some p) only_pass_env_updates True = Some env
     \<and> map_of env COLLECTIONS_PATH_ENV_VAR = Some p
     \<and> map_of env COLLECTIONS_PATH_ENV_VAR_COMPAT = None
     \<and> map_of env ''_COLLECTIONS_PATH_ENV_VAR_COMPAT'' = Some p"
  using assms
  by (auto simp: prepare_env_def dict_update_def COLLECTIONS_PATH_ENV_VAR_def
        COLLECTIONS_PATH_ENV_VAR_COMPAT_def AList.update_conv')

theorem prepare_env_compat_key_witness:
  "\<exists>env. prepare_env [] (Some ''/c'') True True = Some env
     \<and> map_of env COLLECTIONS_PATH_ENV_VAR = Some ''/c''
     \<and> map_of env COLLECTIONS_PATH_ENV_VAR_COMPAT = None
     \<and> map_of env ''_COLLECTIONS_PATH_ENV_VAR_COMPAT'' = Some ''/c''"
  using prepare_env_compat_key [of "''/c''" True "[]"] by simp

section \<open>Claims about the resolver\<close>

text \<open>
  Claim C10. \<^verbatim>\<open>complete_redirects_for_collection\<close> called with a collection name that
  is not a key of the catalog returns normally and leaves the catalog unchanged.
\<close>

theorem unknown_collection_is_noop:
  assumes "map_of routing_data collection_name = None"
  shows "complete_redirects_for_collection routing_data collection_name = Inr routing_data"
  using assms by (simp add: complete_redirects_for_collection_def)

theorem unknown_collection_is_noop_witness:
  "complete_redirects_for_collection
     [(''foo.bar'', \<lparr>plugin_data = [(''module'', [])]\<rparr>)] ''does-not-exist''
   = Inr [(''foo.bar'', \<lparr>plugin_data = [(''module'', [])]\<rparr>)]"
  using unknown_collection_is_noop
    [of "[(''foo.bar'', \<lparr>plugin_data = [(''module'', [])]\<rparr>)]" "''does-not-exist''"]
  by simp

text \<open>
  Claim C9. The per-node completion \<^verbatim>\<open>_complete_redirect\<close>,
  \<^verbatim>\<open>complete_redirects_for_collection\<close> and \<^verbatim>\<open>complete_redirects\<close> leave the key
  structure of the catalog as it was: the bundle names, the plugin types of each bundle
  and the plugin names of each type, in their order. Every assignment of the resolver
  replaces the value of a plugin name that is already a key.
\<close>

theorem resolver_preserves_keys:
  "(complete_redirect p rd c pt n = Inr (p', rd1) \<longrightarrow> keys_of rd1 = keys_of rd)
   \<and> (complete_redirects_for_collection rd c = Inr rd2 \<longrightarrow> keys_of rd2 = keys_of rd)
   \<and> (complete_redirects rd = Inr rd3 \<longrightarrow> keys_of rd3 = keys_of rd)"
  using complete_redirect_rewritten [of p rd c pt n p' rd1]
    complete_redirects_for_collection_rewritten [of rd c rd2]
    complete_redirects_rewritten(1) [of rd rd3]
  by (auto dest: rewritten_keys)

theorem resolver_preserves_keys_witness:
  "(\<exists>p' rd1. complete_redirect (redirecting ''foo.bar.b'') chain_ab ''foo.bar'' ''module'' ''a''
        = Inr (p', rd1) \<and> keys_of rd1 = keys_of chain_ab)
   \<and> (\<exists>rd2. complete_redirects_for_collection chain_ab ''foo.bar'' = Inr rd2
        \<and> keys_of rd2 = keys_of chain_ab)
   \<and> (\<exists>rd3. complete_redirects chain_ab = Inr rd3 \<and> keys_of rd3 = keys_of chain_ab)"
proof -
  have "\<not> isl (complete_redirect (redirecting ''foo.bar.b'') chain_ab ''foo.bar'' ''module'' ''a'')"
    by code_simp
  then obtain p' rd1 where 1:
    "complete_redirect (redirecting ''foo.bar.b'') chain_ab ''foo.bar'' ''module'' ''a'' = Inr (p', rd1)"
    by (cases "complete_redirect (redirecting ''foo.bar.b'') chain_ab ''foo.bar'' ''module'' ''a''") auto
  have "\<not> isl (complete_redirects_for_collection chain_ab ''foo.bar'')"
    by code_simp
  then obtain rd2 where 2: "complete_redirects_for_collection chain_ab ''foo.bar'' = Inr rd2"
    by (cases "complete_redirects_for_collection chain_ab ''foo.bar''") auto
  have "\<not> isl (complete_redirects chain_ab)"
    by code_simp
  then obtain rd3 where 3: "complete_redirects chain_ab = Inr rd3"
    by (cases "complete_redirects chain_ab") auto
  from resolver_preserves_keys
    [of "redirecting ''foo.bar.b''" chain_ab "''foo.bar''" "''module''" "''a''" p' rd1 rd2 rd3]
    1 2 3
  show ?thesis by simp
qed

text \<open>
  Claim C5. \<^verbatim>\<open>_complete_redirect\<close> returns a node whose redirect is absent or the
  cycle marker, or whose \<^verbatim>\<open>redirect_chain\<close> is populated, unchanged (and the catalog
  with it); and a catalog that \<^verbatim>\<open>complete_redirects\<close> has returned is a fixed point of
  \<^verbatim>\<open>complete_redirects\<close>.
\<close>

theorem resolution_idempotent:
  "(redirect p = Absent \<or> redirect p = Ellipsis \<or> redirect_chain p \<noteq> None
      \<longrightarrow> complete_redirect p rd c pt n = Inr (p, rd))
   \<and> (complete_redirects rd0 = Inr rd' \<longrightarrow> complete_redirects rd' = Inr rd')"
proof -
  have "complete_redirects rd' = Inr rd'" if "complete_redirects rd0 = Inr rd'"
  proof -
    from that have "all_done rd'" by (rule complete_redirects_rewritten)
    then show ?thesis
      by (simp add: complete_redirects_def complete_collections_all_done)
  qed
  moreover have "complete_redirect p rd c pt n = Inr (p, rd)"
    if "redirect p = Absent \<or> redirect p = Ellipsis \<or> redirect_chain p \<noteq> None"
    using that by (intro complete_redirect_done) (simp add: already_done_def)
  ultimately show ?thesis by blast
qed

theorem resolution_idempotent_witness:
  "complete_redirect (self_loop ''foo.bar.loop_3'') pre_loop ''foo.bar'' ''module'' ''loop_3''
     = Inr (self_loop ''foo.bar.loop_3'', pre_loop)
   \<and> (\<exists>rd'. complete_redirects chain_ba = Inr rd' \<and> complete_redirects rd' = Inr rd')"
proof -
  have "\<not> isl (complete_redirects chain_ba)"
    by code_simp
  then obtain rd' where 1: "complete_redirects chain_ba = Inr rd'"
    by (cases "complete_redirects chain_ba") auto
  have 2: "redirect (self_loop ''foo.bar.loop_3'') = Ellipsis"
    by (simp add: self_loop_def blank_routing_def)
  from resolution_idempotent
    [of "self_loop ''foo.bar.loop_3''" pre_loop "''foo.bar''" "''module''" "''loop_3''" chain_ba rd']
    1 2
  show ?thesis by simp
qed

text \<open>
  Claim C7, evaluated on the chain \<^verbatim>\<open>a -> b -> c -> d\<close> in one bundle. The two catalogs
  are the same dictionary, with the plugin names inserted in different orders. When
  \<^verbatim>\<open>a\<close> is resolved first every node gets its full chain. When \<^verbatim>\<open>b\<close> is resolved
  first, its \<^verbatim>\<open>redirect\<close> becomes the terminal \<^verbatim>\<open>foo.bar.d\<close>; resolving \<^verbatim>\<open>a\<close> then
  steps from \<^verbatim>\<open>b\<close> straight to \<^verbatim>\<open>d\<close>, records the chain \<^verbatim>\<open>(a, b, d)\<close> and
  overwrites the chain of \<^verbatim>\<open>b\<close> with \<^verbatim>\<open>(b, d)\<close>.
\<close>

theorem iteration_order_changes_result:
  "map_of [(''a'', redirecting ''foo.bar.b''), (''b'', redirecting ''foo.bar.c'')]
     = map_of [(''b'', redirecting ''foo.bar.c''), (''a'', redirecting ''foo.bar.b'')]
   \<and> resolved_chain chain_ab ''b'' = Some [''foo.bar.b'', ''foo.bar.c'', ''foo.bar.d'']
   \<and> resolved_chain chain_ba ''b'' = Some [''foo.bar.b'', ''foo.bar.d'']
   \<and> resolved_chain chain_ab ''a'' = Some [''foo.bar.a'', ''foo.bar.b'', ''foo.bar.c'', ''foo.bar.d'']
   \<and> resolved_chain chain_ba ''a'' = Some [''foo.bar.a'', ''foo.bar.b'', ''foo.bar.d'']"
proof -
  have "map_of [(''a'', redirecting ''foo.bar.b''), (''b'', redirecting ''foo.bar.c'')]
     = map_of [(''b'', redirecting ''foo.bar.c''), (''a'', redirecting ''foo.bar.b'')]"
    by (rule ext) simp
  moreover have "resolved_chain chain_ab ''b'' = Some [''foo.bar.b'', ''foo.bar.c'', ''foo.bar.d'']"
    by code_simp
  moreover have "resolved_chain chain_ba ''b'' = Some [''foo.bar.b'', ''foo.bar.d'']"
    by code_simp
  moreover have "resolved_chain chain_ab ''a''
      = Some [''foo.bar.a'', ''foo.bar.b'', ''foo.bar.c'', ''foo.bar.d'']"
    by code_simp
  moreover have "resolved_chain chain_ba ''a'' = Some [''foo.bar.a'', ''foo.bar.b'', ''foo.bar.d'']"
    by code_simp
  ultimately show ?thesis by blast
qed

lemma plain_redirect_SomeD:
  assumes "plain_redirect rd pt name = Some (e, r)"
  obtains ns cn pn pd where
    "str_split CHR ''.'' 2 name = [ns, cn, pn]"
    "get_plugin rd (ns @ ''.'' @ cn, pt) pn = Some pd"
    "redirect pd = RedirectTo r" "tombstone pd = None" "redirect_error pd = None"
    "\<not> redirect_tombstone pd" "\<not> redirect_dead_end pd"
    "e = (name, ns @ ''.'' @ cn, pn, Some pd, Some (ns @ ''.'' @ cn, pt))"
  using assms unfolding plain_redirect_def
  by (auto split: list.splits option.splits redirect_t.splits if_splits)

lemma plain_redirect_fst: "plain_redirect rd pt name = Some (e, r) \<Longrightarrow> fst e = name"
  by (erule plain_redirect_SomeD) simp

lemma loop_body_plain:
  assumes "plain_redirect rd pt name = Some (e, r)" and "name \<notin> found"
  shows "loop_body rd pt fqcn pdata found path name = Continue (insert name found) (path @ [e]) r"
proof -
  from assms(1) obtain ns cn pn pd where h:
    "str_split CHR ''.'' 2 name = [ns, cn, pn]"
    "get_plugin rd (ns @ ''.'' @ cn, pt) pn = Some pd"
    "redirect pd = RedirectTo r" "tombstone pd = None" "redirect_error pd = None"
    "\<not> redirect_tombstone pd" "\<not> redirect_dead_end pd"
    "e = (name, ns @ ''.'' @ cn, pn, Some pd, Some (ns @ ''.'' @ cn, pt))"
    by (rule plain_redirect_SomeD)
  from h(2) obtain prd where d: "owner_dict rd (ns @ ''.'' @ cn, pt) = Some prd"
    "prd \<noteq> []" "map_of prd pn = Some pd"
    by (auto dest: get_plugin_SomeD)
  from d(1) obtain cr where c: "map_of rd (ns @ ''.'' @ cn) = Some cr"
    "map_of (plugin_data cr) pt = Some prd"
    by (auto simp: owner_dict_def split: option.splits)
  note g = c d(2,3)
  show ?thesis
    unfolding loop_body_def Let_def
    using assms(2) h(3-8) g by (simp add: h(1))
qed

lemma walk_hops:
  assumes "hops rd pt name es t"
    and "distinct (map fst es)"
    and "set (map fst es) \<inter> found = {}"
  shows "walk rd pt fqcn pdata found path name
       = walk rd pt fqcn pdata (found \<union> set (map fst es)) (path @ es) t"
  using assms
proof (induction es arbitrary: name found path)
  case Nil
  then show ?case by simp
next
  case (Cons e es)
  from Cons.prems(1) obtain r where r: "plain_redirect rd pt name = Some (e, r)"
    "hops rd pt r es t"
    by (auto split: option.splits)
  have e: "fst e = name"
    using r(1) by (rule plain_redirect_fst)
  with Cons.prems(3) have "name \<notin> found" by auto
  with r(1) have "loop_body rd pt fqcn pdata found path name
      = Continue (insert name found) (path @ [e]) r"
    by (rule loop_body_plain)
  then have "walk rd pt fqcn pdata found path name
      = walk rd pt fqcn pdata (insert name found) (path @ [e]) r"
    by (simp add: walk.simps [of rd pt fqcn pdata found path name])
  also have "\<dots> = walk rd pt fqcn pdata (insert name found \<union> set (map fst es)) ((path @ [e]) @ es) t"
    using r(2) Cons.prems(2,3) e by (intro Cons.IH) auto
  finally show ?case
    by (simp add: e)
qed

text \<open>A sequence of plain redirects that ends at a name that is no plain redirect is unique.\<close>

lemma hops_unique:
  assumes "hops rd pt name es t" and "hops rd pt name es' t" and "plain_redirect rd pt t = None"
  shows "es = es'"
  using assms(1,2)
proof (induction es arbitrary: name es')
  case Nil
  with assms(3) show ?case by (cases es') auto
next
  case (Cons e es)
  from Cons.prems(1) obtain r where r: "plain_redirect rd pt name = Some (e, r)"
    "hops rd pt r es t"
    by (auto split: option.splits)
  with assms(3) have "name \<noteq> t" by auto
  with Cons.prems(2) obtain es'' where es': "es' = e # es''" "hops rd pt r es'' t"
    using r(1) by (cases es') auto
  from Cons.IH [OF r(2) es'(2)] es'(1) show ?case by simp
qed

lemma hops_split:
  assumes "hops rd pt name (as @ e # bs) t"
  shows "hops rd pt (fst e) (e # bs) t"
  using assms
proof (induction as arbitrary: name)
  case Nil
  then obtain r where "plain_redirect rd pt name = Some (e, r)"
    by (auto split: option.splits)
  then have "fst e = name" by (rule plain_redirect_fst)
  with Nil show ?case by simp
next
  case (Cons a as)
  then obtain r where "hops rd pt r (as @ e # bs) t"
    by (auto split: option.splits)
  then show ?case by (rule Cons.IH)
qed

lemma hops_distinct:
  assumes "hops rd pt name es t" and "plain_redirect rd pt t = None"
  shows "distinct (map fst es) \<and> t \<notin> set (map fst es)"
  using assms(1)
proof (induction es arbitrary: name)
  case Nil
  show ?case by simp
next
  case (Cons e es)
  from Cons.prems obtain r where r: "plain_redirect rd pt name = Some (e, r)"
    "hops rd pt r es t"
    by (auto split: option.splits)
  have e: "fst e = name"
    using r(1) by (rule plain_redirect_fst)
  from Cons.IH [OF r(2)] have ih: "distinct (map fst es)" "t \<notin> set (map fst es)"
    by simp_all
  have "name \<noteq> t"
    using r(1) assms(2) by auto
  moreover have "name \<notin> set (map fst es)"
  proof
    assume "name \<in> set (map fst es)"
    then obtain e' where "e' \<in> set es" "fst e' = name" by auto
    then obtain as bs where es: "es = as @ e' # bs"
      by (auto dest: split_list)
    from r(2) have "hops rd pt (fst e') (e' # bs) t"
      unfolding es by (rule hops_split)
    with \<open>fst e' = name\<close> have "hops rd pt name (e' # bs) t" by simp
    from hops_unique [OF Cons.prems this assms(2)] have "length (e # es) = length (e' # bs)"
      by simp
    with es show False by simp
  qed
  ultimately show ?case using ih e by simp
qed

lemma prefix_for_append:
  "prefix_for fqcn redir tomb dead err (xs @ ys) st
     = prefix_for fqcn redir tomb dead err ys (prefix_for fqcn redir tomb dead err xs st)"
proof (induction xs arbitrary: st)
  case Nil
  show ?case by simp
next
  case (Cons x xs)
  obtain fq cn pn ppd owner where x: "x = (fq, cn, pn, ppd, owner)"
    by (cases x) auto
  obtain rd pdata chain deps where st: "st = (rd, pdata, chain, deps)"
    by (cases st) auto
  show ?case
    unfolding x st by (cases ppd) (simp_all add: Cons.IH Let_def)
qed

lemma prefix_for_rev:
  assumes "prefix_for fqcn redir tomb dead err (rev es) (rd, pdata, chain, deps)
             = (rd', pdata', chain', deps')"
  shows "chain' = (if es = [] then chain else Some (map fst es @ or_empty chain))
     \<and> deps' = prepend_deprecations (own_deprecations es) deps"
  using assms
proof (induction es arbitrary: rd' pdata' chain' deps')
  case Nil
  then show ?case by (simp add: prepend_deprecations_def)
next
  case (Cons e es)
  obtain fq cn pn ppd owner where e: "e = (fq, cn, pn, ppd, owner)"
    by (cases e) auto
  obtain rd1 pd1 ch1 dp1 where mid:
    "prefix_for fqcn redir tomb dead err (rev es) (rd, pdata, chain, deps) = (rd1, pd1, ch1, dp1)"
    by (cases "prefix_for fqcn redir tomb dead err (rev es) (rd, pdata, chain, deps)") auto
  from Cons.IH [OF mid] have ih:
    "ch1 = (if es = [] then chain else Some (map fst es @ or_empty chain))"
    "dp1 = prepend_deprecations (own_deprecations es) deps"
    by simp_all
  from Cons.prems have last:
    "prefix_for fqcn redir tomb dead err [e] (rd1, pd1, ch1, dp1) = (rd', pdata', chain', deps')"
    by (simp add: prefix_for_append mid)
  have ch: "fq # or_empty ch1 = map fst (e # es) @ or_empty chain"
    by (simp add: ih(1) e or_empty_def)
  show ?case
  proof (cases ppd)
    case None
    with last ch ih(2) show ?thesis
      by (simp add: e)
  next
    case (Some p)
    show ?thesis
    proof (cases "deprecation p")
      case None
      with last ch ih(2) Some show ?thesis
        by (simp add: e Let_def)
    next
      case (Some d)
      with last ch \<open>ppd = Some p\<close> have "chain' = Some (map fst (e # es) @ or_empty chain)"
        "deps' = Some ((fq, d) # or_empty dp1)"
        by (simp_all add: e Let_def)
      with Some \<open>ppd = Some p\<close> ih(2) show ?thesis
        by (simp add: e prepend_deprecations_def or_empty_def)
    qed
  qed
qed

text \<open>The record returned for the start node, which is the first element of the path.\<close>

lemma prefix_for_start:
  assumes "prefix_for fqcn redir tomb dead err (rev ((fqcn, c, n, Some p, None) # es))
             (rd, pdata, chain, deps) = (rd', pdata', chain', deps')"
  shows "pdata' = rewritten_record p redir (fqcn # map fst es @ or_empty chain)
           (prepend_deprecations (own_deprecations ((fqcn, c, n, Some p, None) # es)) deps)
           tomb dead err"
proof -
  obtain rd1 pd1 ch1 dp1 where mid:
    "prefix_for fqcn redir tomb dead err (rev es) (rd, pdata, chain, deps) = (rd1, pd1, ch1, dp1)"
    by (cases "prefix_for fqcn redir tomb dead err (rev es) (rd, pdata, chain, deps)") auto
  from prefix_for_rev [OF mid] have ih:
    "ch1 = (if es = [] then chain else Some (map fst es @ or_empty chain))"
    "dp1 = prepend_deprecations (own_deprecations es) deps"
    by simp_all
  from assms have last:
    "prefix_for fqcn redir tomb dead err [(fqcn, c, n, Some p, None)] (rd1, pd1, ch1, dp1)
       = (rd', pdata', chain', deps')"
    by (simp add: prefix_for_append mid)
  have ch: "fqcn # or_empty ch1 = fqcn # map fst es @ or_empty chain"
    by (simp add: ih(1) or_empty_def)
  have dp: "(case deprecation p of None \<Rightarrow> dp1 | Some d \<Rightarrow> Some ((fqcn, d) # or_empty dp1))
      = prepend_deprecations (own_deprecations ((fqcn, c, n, Some p, None) # es)) deps"
    by (cases "deprecation p") (simp_all add: ih(2) prepend_deprecations_def or_empty_def)
  from last have "pdata' = rewritten_record p redir (fqcn # or_empty ch1)
      (case deprecation p of None \<Rightarrow> dp1 | Some d \<Rightarrow> Some ((fqcn, d) # or_empty dp1))
      tomb dead err"
    by (auto simp: Let_def rewritten_record_def)
  then show ?thesis
    by (simp only: ch dp)
qed

text \<open>
  Resolution of a start node whose redirect leads over the plain redirects \<open>es\<close> to \<open>t\<close>:
  the loop reaches \<open>t\<close> with the path \<open>start # es\<close>, and what happens at \<open>t\<close> decides.
\<close>

lemma complete_redirect_exit:
  assumes "redirect p = RedirectTo r" and "redirect_chain p = None"
    and "hops rd pt r es t"
    and "distinct (map fst es)"
    and "c @ ''.'' @ n \<notin> set (map fst es)"
    and "loop_body rd pt (c @ ''.'' @ n) p (insert (c @ ''.'' @ n) (set (map fst es)))
           ((c @ ''.'' @ n, c, n, Some p, None) # es) t = Break l"
    and "prefix_for (c @ ''.'' @ n)
           (if var_is_loop l then Ellipsis else RedirectTo (var_next_name l))
           (var_redirect_tombstone l) (var_redirect_dead_end l) (var_redirect_error l)
           (rev (var_redirection_list l))
           (var_routing_data l, var_plugin_data l, var_redirect_chain l,
            var_redirect_deprecations l) = (rd', p', chain', deps')"
  shows "complete_redirect p rd c pt n = Inr (p', rd')"
proof -
  let ?fqcn = "c @ ''.'' @ n"
  let ?start = "(?fqcn, c, n, Some p, None)"
  have "walk rd pt ?fqcn p {?fqcn} [?start] r
      = walk rd pt ?fqcn p ({?fqcn} \<union> set (map fst es)) ([?start] @ es) t"
    using assms(3,4,5) by (intro walk_hops) auto
  moreover have "{?fqcn} \<union> set (map fst es) = insert ?fqcn (set (map fst es))"
    "[?start] @ es = ?start # es"
    by auto
  moreover have "walk rd pt ?fqcn p (insert ?fqcn (set (map fst es))) (?start # es) t = Inr l"
    by (subst walk.simps) (simp only: assms(6) loop_result.case)
  ultimately have "walk rd pt ?fqcn p {?fqcn} [?start] r = Inr l"
    by (simp only:)
  with assms(1,2,7) show ?thesis
    by (simp add: complete_redirect_def Let_def)
qed

lemma loop_body_tombstone:
  assumes "t \<notin> found"
    and "str_split CHR ''.'' 2 t = [ns, cn, pn]"
    and "get_plugin rd (ns @ ''.'' @ cn, pt) pn = Some pd"
    and "tombstone pd = Some ts"
  shows "loop_body rd pt fqcn pdata found path t =
     Break \<lparr>var_routing_data = rd, var_plugin_data = pdata,
            var_redirection_list = path, var_next_name = t,
            var_redirect_chain = None, var_redirect_deprecations = Some [(t, ts)],
            var_redirect_tombstone = True, var_redirect_dead_end = False,
            var_redirect_error = None, var_is_loop = False\<rparr>"
proof -
  from assms(3) obtain prd where d: "owner_dict rd (ns @ ''.'' @ cn, pt) = Some prd"
    "prd \<noteq> []" "map_of prd pn = Some pd"
    by (auto dest: get_plugin_SomeD)
  from d(1) obtain cr where c: "map_of rd (ns @ ''.'' @ cn) = Some cr"
    "map_of (plugin_data cr) pt = Some prd"
    by (auto simp: owner_dict_def split: option.splits)
  show ?thesis
    unfolding loop_body_def Let_def
    using assms(1,4) c d(2,3) by (simp add: assms(2))
qed

lemma plain_redirect_tombstone:
  assumes "str_split CHR ''.'' 2 t = [ns, cn, pn]"
    and "get_plugin rd (ns @ ''.'' @ cn, pt) pn = Some pd"
    and "tombstone pd = Some ts"
  shows "plain_redirect rd pt t = None"
  using assms by (simp add: plain_redirect_def split: redirect_t.splits)

text \<open>
  Claim C3 fails as stated. The deprecated plugin \<^verbatim>\<open>old\<close> redirects to the tombstoned
  \<^verbatim>\<open>gone\<close>. After resolution its chain is \<^verbatim>\<open>(foo.bar.old,)\<close>, whose last element is
  not the FQN of \<^verbatim>\<open>gone\<close>, and its \<^verbatim>\<open>redirect_deprecations\<close> holds its own deprecation
  before the tombstone of \<^verbatim>\<open>gone\<close>.
\<close>

theorem tombstone_target_counterexample:
  "map_option redirect_chain (resolved_record deprecated_start ''old'') = Some (Some [''foo.bar.old''])
   \<and> last [''foo.bar.old''] \<noteq> ''foo.bar.gone''
   \<and> map_option redirect_tombstone (resolved_record deprecated_start ''old'') = Some True
   \<and> map_option redirect (resolved_record deprecated_start ''old'')
       = Some (RedirectTo ''foo.bar.gone'')
   \<and> map_option redirect_deprecations (resolved_record deprecated_start ''old'')
       = Some (Some
           [(''foo.bar.old'',
             \<lparr>warning_text = Some ''old'', removal_version = None, removal_date = None\<rparr>),
            (''foo.bar.gone'',
             \<lparr>warning_text = Some ''this is dead'', removal_version = None,
                removal_date = None\<rparr>)])"
  by code_simp

text \<open>
  Claim C3, amended. Let the redirect of the unresolved start node lead over unresolved
  plain redirects \<open>es\<close> to a plugin \<open>t\<close> whose tombstone is set. Then
  \<^verbatim>\<open>_complete_redirect\<close> returns for the start node a record with
  \<^verbatim>\<open>redirect == t\<close>, \<^verbatim>\<open>redirect_tombstone == True\<close>, no \<^verbatim>\<open>redirect_error\<close>,
  \<^verbatim>\<open>redirect_dead_end == False\<close>; its chain is the path from the start node to the last
  node before \<open>t\<close> and does not hold \<open>t\<close>; its \<^verbatim>\<open>redirect_deprecations\<close> are the
  deprecations of the nodes of the path, in order, followed by \<open>(t, tombstone)\<close>.
\<close>

theorem tombstone_short_circuit:
  assumes "redirect p = RedirectTo r" and "redirect_chain p = None"
    and "hops rd pt r es t"
    and "c @ ''.'' @ n \<notin> set (map fst es)" and "t \<noteq> c @ ''.'' @ n"
    and "str_split CHR ''.'' 2 t = [ns, cn, pn]"
    and "get_plugin rd (ns @ ''.'' @ cn, pt) pn = Some pd"
    and "tombstone pd = Some ts"
  shows "\<exists>p' rd'. complete_redirect p rd c pt n = Inr (p', rd')
     \<and> redirect p' = RedirectTo t
     \<and> redirect_tombstone p' \<and> redirect_error p' = None \<and> \<not> redirect_dead_end p'
     \<and> redirect_chain p' = Some ((c @ ''.'' @ n) # map fst es)
     \<and> t \<notin> set ((c @ ''.'' @ n) # map fst es)
     \<and> redirect_deprecations p'
         = Some (own_deprecations ((c @ ''.'' @ n, c, n, Some p, None) # es) @ [(t, ts)])"
proof -
  let ?fqcn = "c @ ''.'' @ n"
  let ?start = "(?fqcn, c, n, Some p, None)"
  have no: "plain_redirect rd pt t = None"
    using assms(6-8) by (rule plain_redirect_tombstone)
  with assms(3) have "distinct (map fst es) \<and> t \<notin> set (map fst es)"
    by (rule hops_distinct)
  then have dist: "distinct (map fst es)" "t \<notin> set (map fst es)"
    by blast+
  with assms(5) have notin: "t \<notin> insert ?fqcn (set (map fst es))" by simp
  define l where "l =
       \<lparr>var_routing_data = rd, var_plugin_data = p,
        var_redirection_list = ?start # es, var_next_name = t,
        var_redirect_chain = None, var_redirect_deprecations = Some [(t, ts)],
        var_redirect_tombstone = True, var_redirect_dead_end = False,
        var_redirect_error = None, var_is_loop = False\<rparr>"
  from loop_body_tombstone [OF notin assms(6-8)] have body:
    "loop_body rd pt ?fqcn p (insert ?fqcn (set (map fst es))) (?start # es) t = Break l"
    unfolding l_def .
  obtain rd' p' chain' deps' where pf:
    "prefix_for ?fqcn (RedirectTo t) True False None (rev (?start # es))
       (rd, p, None, Some [(t, ts)]) = (rd', p', chain', deps')"
    by (cases "prefix_for ?fqcn (RedirectTo t) True False None (rev (?start # es))
       (rd, p, None, Some [(t, ts)])") auto
  from pf have "prefix_for ?fqcn
       (if var_is_loop l then Ellipsis else RedirectTo (var_next_name l))
       (var_redirect_tombstone l) (var_redirect_dead_end l) (var_redirect_error l)
       (rev (var_redirection_list l))
       (var_routing_data l, var_plugin_data l, var_redirect_chain l,
        var_redirect_deprecations l) = (rd', p', chain', deps')"
    by (simp add: l_def)
  with assms(1-3) dist(1) assms(4) body
  have "complete_redirect p rd c pt n = Inr (p', rd')"
    by (rule complete_redirect_exit)
  moreover from prefix_for_start [OF pf] have
    "p' = rewritten_record p (RedirectTo t) (?fqcn # map fst es @ or_empty None)
           (prepend_deprecations (own_deprecations (?start # es)) (Some [(t, ts)]))
           True False None" .
  ultimately show ?thesis
    using dist(2) assms(5)
    by (auto simp: rewritten_record_def prepend_deprecations_def or_empty_def)
qed

theorem tombstone_short_circuit_witness:
  "\<exists>p' rd'.
     complete_redirect ((redirecting ''foo.bar.dead_chain_2'')\<lparr>deprecation := Some old_removal\<rparr>)
       dead_path ''foo.bar'' ''module'' ''dead_chain_1'' = Inr (p', rd')
     \<and> redirect p' = RedirectTo ''foo.bar.dead_chain_3''
     \<and> redirect_tombstone p' \<and> redirect_error p' = None \<and> \<not> redirect_dead_end p'
     \<and> redirect_chain p' = Some [''foo.bar.dead_chain_1'', ''foo.bar.dead_chain_2'']
     \<and> redirect_deprecations p'
         = Some [(''foo.bar.dead_chain_1'', old_removal), (''foo.bar.dead_chain_3'', dead_removal)]"
proof -
  let ?p = "(redirecting ''foo.bar.dead_chain_2'')\<lparr>deprecation := Some old_removal\<rparr>"
  let ?e = "(''foo.bar.dead_chain_2'', ''foo.bar'', ''dead_chain_2'',
             Some (redirecting ''foo.bar.dead_chain_3''), Some (''foo.bar'', ''module''))"
  have 1: "redirect ?p = RedirectTo ''foo.bar.dead_chain_2''" "redirect_chain ?p = None"
    by (simp_all add: redirecting_def blank_routing_def)
  have 2: "hops dead_path ''module'' ''foo.bar.dead_chain_2'' [?e] ''foo.bar.dead_chain_3''"
    by code_simp
  have 3: "''foo.bar'' @ ''.'' @ ''dead_chain_1'' \<notin> set (map fst [?e])"
    "''foo.bar.dead_chain_3'' \<noteq> ''foo.bar'' @ ''.'' @ ''dead_chain_1''"
    by simp_all
  have 4: "str_split CHR ''.'' 2 ''foo.bar.dead_chain_3'' = [''foo'', ''bar'', ''dead_chain_3'']"
    by code_simp
  have 5: "get_plugin dead_path (''foo'' @ ''.'' @ ''bar'', ''module'') ''dead_chain_3''
      = Some (blank_routing\<lparr>tombstone := Some dead_removal\<rparr>)"
    by code_simp
  have 6: "tombstone (blank_routing\<lparr>tombstone := Some dead_removal\<rparr>) = Some dead_removal"
    by simp
  from tombstone_short_circuit [OF 1 2 3 4 5 6] show ?thesis
    by (simp add: redirecting_def blank_routing_def)
qed


lemma get_plugin_owner_assign_Some:
  "get_plugin rd a m \<noteq> None \<Longrightarrow> get_plugin (owner_assign rd owner pn v) a m \<noteq> None"
  by (auto simp: get_plugin_owner_assign split: if_splits)


lemma hops_nodes:
  assumes "hops rd pt name es t" and "e \<in> set es"
  obtains fq cn pn p where "e = (fq, cn, pn, Some p, Some (cn, pt))"
    "get_plugin rd (cn, pt) pn \<noteq> None" "fq = cn @ ''.'' @ pn"
  using assms
proof (induction es arbitrary: name thesis)
  case Nil
  then show ?case by simp
next
  case (Cons e' es)
  from Cons.prems(2) obtain r where r: "plain_redirect rd pt name = Some (e', r)"
    "hops rd pt r es t"
    by (auto split: option.splits)
  show ?case
  proof (cases "e = e'")
    case True
    from r(1) obtain ns cn pn pd where h:
      "str_split CHR ''.'' 2 name = [ns, cn, pn]"
      "get_plugin rd (ns @ ''.'' @ cn, pt) pn = Some pd"
      "e' = (name, ns @ ''.'' @ cn, pn, Some pd, Some (ns @ ''.'' @ cn, pt))"
      by (rule plain_redirect_SomeD)
    have "name = (ns @ ''.'' @ cn) @ ''.'' @ pn"
      using str_split_three [OF h(1)] by simp
    with True h(2,3) show ?thesis
      by (intro Cons.prems(1) [of name "ns @ ''.'' @ cn" pn pd]) simp_all
  next
    case False
    with Cons.prems(3) have "e \<in> set es" by simp
    with Cons.IH [OF _ r(2)] Cons.prems(1) show ?thesis by blast
  qed
qed











lemma start_index_of_append:
  assumes "name \<notin> set (map fst pre)" and "fst e = name"
  shows "start_index_of name (pre @ e # rest) = Some (length pre)"
  using assms by (induction pre) auto

lemma owner_assign_hit:
  assumes "get_plugin rd a m \<noteq> None"
  shows "get_plugin (owner_assign rd (Some a) m v) a m = Some v"
proof -
  from assms obtain d where "owner_dict rd a = Some d" "d \<noteq> []"
    by (auto dest: get_plugin_SomeD)
  then show ?thesis
    by (simp add: get_plugin_owner_assign)
qed

lemma owner_assign_miss:
  assumes "owner \<noteq> Some a \<or> n \<noteq> m"
  shows "get_plugin (owner_assign rd owner n v) a m = get_plugin rd a m"
  using assms by (auto simp: get_plugin_owner_assign)

text \<open>The rewrite after the walk stores records only at the nodes of its path.\<close>

lemma prefix_for_frame:
  assumes "prefix_for fqcn redir tomb dead err xs (rd, pdata, chain, deps)
             = (rd', pdata', chain', deps')"
    and "\<forall>e \<in> set xs. snd (snd (snd (snd e))) \<noteq> Some a \<or> fst (snd (snd e)) \<noteq> m"
  shows "get_plugin rd' a m = get_plugin rd a m"
  using assms
proof (induction xs arbitrary: rd pdata chain deps)
  case Nil
  then show ?case by simp
next
  case (Cons e xs)
  obtain fq cn pn ppd owner where e: "e = (fq, cn, pn, ppd, owner)"
    by (cases e) auto
  from Cons.prems(2) have miss: "owner \<noteq> Some a \<or> pn \<noteq> m"
    and rest: "\<forall>e \<in> set xs. snd (snd (snd (snd e))) \<noteq> Some a \<or> fst (snd (snd e)) \<noteq> m"
    by (simp_all add: e)
  show ?case
  proof (cases ppd)
    case None
    with Cons.prems(1) have
      "prefix_for fqcn redir tomb dead err xs (rd, pdata, Some (fq # or_empty chain), deps)
       = (rd', pdata', chain', deps')"
      by (simp add: e)
    from Cons.IH [OF this rest] show ?thesis .
  next
    case (Some p)
    define deps1 where "deps1 =
      (case deprecation p of None \<Rightarrow> deps | Some d \<Rightarrow> Some ((fq, d) # or_empty deps))"
    define new where "new =
       \<lparr>action_plugin = action_plugin p, redirect = redir,
        redirect_chain = Some (fq # or_empty chain),
        redirect_deprecations = deps1,
        redirect_tombstone = tomb, redirect_dead_end = dead, redirect_error = err,
        deprecation = deprecation p, tombstone = tombstone p\<rparr>"
    from Cons.prems(1) have run:
      "prefix_for fqcn redir tomb dead err xs
         (owner_assign rd owner pn new, if fq = fqcn then new else pdata,
          Some (fq # or_empty chain), deps1)
       = (rd', pdata', chain', deps')"
      unfolding e Some new_def deps1_def by (simp only: prefix_for.simps Let_def option.case)
    from Cons.IH [OF run rest] have "get_plugin rd' a m = get_plugin (owner_assign rd owner pn new) a m" .
    also have "\<dots> = get_plugin rd a m"
      using miss by (rule owner_assign_miss)
    finally show ?thesis .
  qed
qed

text \<open>
  The cycle branch at the path \<open>pre @ [A, B, C]\<close> with the next name \<open>A\<close>: the three
  nodes get the rotated chains and deprecations, and the path is cut back to \<open>pre\<close>.
\<close>

lemma three_cycle_found:
  fixes A B C S :: string
  assumes "A \<notin> set (map fst pre)" and "S \<noteq> B" "S \<noteq> C"
    and "deprecation pA = Some dA" "deprecation pB = None" "deprecation pC = Some dC"
  shows "found_cycle rd S p
           (pre @ [(A, cA, nA, Some pA, oA), (B, cB, nB, Some pB, oB), (C, cC, nC, Some pC, oC)]) A
       = Inr \<lparr>var_routing_data =
                owner_assign
                  (owner_assign
                     (owner_assign rd oA nA (cycle_record pA [A, B, C, A] [(A, dA), (C, dC)]))
                     oB nB (cycle_record pB [B, C, A, B] [(C, dC), (A, dA)]))
                  oC nC (cycle_record pC [C, A, B, C] [(C, dC), (A, dA)]),
              var_plugin_data =
                (if A = S then cycle_record pA [A, B, C, A] [(A, dA), (C, dC)] else p),
              var_redirection_list = pre,
              var_next_name = A,
              var_redirect_chain = Some [A, B, C, A],
              var_redirect_deprecations = Some [(A, dA), (C, dC)],
              var_redirect_tombstone = False, var_redirect_dead_end = False,
              var_redirect_error = Some ''Detected circular redirect'',
              var_is_loop = True\<rparr>"
proof -
  let ?loop = "[(A, cA, nA, Some pA, oA), (B, cB, nB, Some pB, oB), (C, cC, nC, Some pC, oC)]"
  have idx: "start_index_of A (pre @ ?loop) = Some (length pre)"
    using assms(1) by (intro start_index_of_append) simp_all
  have en: "enumerate 0 ?loop
      = [(0, (A, cA, nA, Some pA, oA)), (1, (B, cB, nB, Some pB, oB)),
         (2, (C, cC, nC, Some pC, oC))]"
    by (simp add: enumerate_eq_zip upt_rec numeral_2_eq_2)
  have deps: "deprecations_w_index (enumerate 0 ?loop) = [(0, (A, dA)), (2, (C, dC))]"
    by (simp add: en assms(4-6))
  have cyc: "cycle_for S (Some ''Detected circular redirect'') [(0, (A, dA)), (2, (C, dC))]
       (enumerate 0 ?loop) (rd, p, [A, B, C])
     = (owner_assign
          (owner_assign
             (owner_assign rd oA nA (cycle_record pA [A, B, C, A] [(A, dA), (C, dC)]))
             oB nB (cycle_record pB [B, C, A, B] [(C, dC), (A, dA)]))
          oC nC (cycle_record pC [C, A, B, C] [(C, dC), (A, dA)]),
        if A = S then cycle_record pA [A, B, C, A] [(A, dA), (C, dC)] else p,
        [A, B, C])"
    using assms(2,3)
    by (simp add: en Let_def cycle_record_def tuple_or_none_def)
  show ?thesis
    unfolding found_cycle_def idx
    by (simp add: deps cyc Let_def tuple_or_none_def del: enumerate_simps)
qed

text \<open>
  A walk that enters the cycle \<open>A \<rightarrow> B \<rightarrow> C \<rightarrow> A\<close> at \<open>A\<close>: its path is \<open>pre @ [A, B, C]\<close>,
  where \<open>pre\<close> is empty when the walk starts at \<open>A\<close> itself.
\<close>

lemma cycle_entered:
  fixes c n :: string
  defines "S \<equiv> c @ ''.'' @ n"
  assumes r: "redirect p = RedirectTo r" and ch: "redirect_chain p = None"
    and h: "hops rd pt r es A"
    and path: "(S, c, n, Some p, None) # es
        = pre @ [(A, cA, nA, Some pA, oA), (B, cB, nB, Some pB, oB), (C, cC, nC, Some pC, oC)]"
    and dist: "distinct (map fst ((S, c, n, Some p, None) # es))"
    and dep: "deprecation pA = Some dA" "deprecation pB = None" "deprecation pC = Some dC"
  shows "\<exists>p' rd' xA xB xC. complete_redirect p rd c pt n = Inr (p', rd')
     \<and> redirect p' = Ellipsis
     \<and> redirect_chain p' = Some (map fst pre @ [A, B, C, A])
     \<and> redirect_deprecations p' = Some (own_deprecations pre @ [(A, dA), (C, dC)])
     \<and> (if pre = [] then xA = p' else get_plugin rd' (cA, pt) nA = Some xA)
     \<and> redirect xA = Ellipsis
     \<and> redirect_chain xA = Some [A, B, C, A]
     \<and> redirect_deprecations xA = Some [(A, dA), (C, dC)]
     \<and> get_plugin rd' (cB, pt) nB = Some xB
     \<and> redirect xB = Ellipsis
     \<and> redirect_chain xB = Some [B, C, A, B]
     \<and> redirect_deprecations xB = Some [(C, dC), (A, dA)]
     \<and> get_plugin rd' (cC, pt) nC = Some xC
     \<and> redirect xC = Ellipsis
     \<and> redirect_chain xC = Some [C, A, B, C]
     \<and> redirect_deprecations xC = Some [(C, dC), (A, dA)]"
proof -
  let ?eA = "(A, cA, nA, Some pA, oA)"
  let ?eB = "(B, cB, nB, Some pB, oB)"
  let ?eC = "(C, cC, nC, Some pC, oC)"
  let ?start = "(S, c, n, Some p, None)"
  let ?newA = "cycle_record pA [A, B, C, A] [(A, dA), (C, dC)]"
  let ?newB = "cycle_record pB [B, C, A, B] [(C, dC), (A, dA)]"
  let ?newC = "cycle_record pC [C, A, B, C] [(C, dC), (A, dA)]"
  let ?rd1 = "owner_assign rd oA nA ?newA"
  let ?rd2 = "owner_assign ?rd1 oB nB ?newB"
  let ?rd3 = "owner_assign ?rd2 oC nC ?newC"
  let ?err = "Some ''Detected circular redirect''"
  have names: "S # map fst es = map fst pre @ [A, B, C]"
    using arg_cong [OF path, of "map fst"] by simp
  with dist have d: "distinct (map fst pre @ [A, B, C])"
    by simp
  then have ne: "A \<noteq> B" "A \<noteq> C" "B \<noteq> C"
    and out: "A \<notin> set (map fst pre)" "B \<notin> set (map fst pre)" "C \<notin> set (map fst pre)"
    by auto
  have S: "S \<noteq> B" "S \<noteq> C"
    using names ne out by (cases pre; auto)+
  have mem: "?eB \<in> set es" "?eC \<in> set es"
    using path by (cases pre; auto)+
  from h mem(1) obtain fq cn pn p0 where "?eB = (fq, cn, pn, Some p0, Some (cn, pt))"
    "get_plugin rd (cn, pt) pn \<noteq> None" "fq = cn @ ''.'' @ pn"
    by (rule hops_nodes)
  then have nodeB: "oB = Some (cB, pt)" "get_plugin rd (cB, pt) nB \<noteq> None" "B = cB @ ''.'' @ nB"
    by auto
  from h mem(2) obtain fq cn pn p0 where "?eC = (fq, cn, pn, Some p0, Some (cn, pt))"
    "get_plugin rd (cn, pt) pn \<noteq> None" "fq = cn @ ''.'' @ pn"
    by (rule hops_nodes)
  then have nodeC: "oC = Some (cC, pt)" "get_plugin rd (cC, pt) nC \<noteq> None" "C = cC @ ''.'' @ nC"
    by auto
  have nodeA: "A = cA @ ''.'' @ nA"
  proof (cases pre)
    case Nil
    with path show ?thesis by (auto simp: S_def)
  next
    case (Cons s pre')
    with path have "?eA \<in> set es" by auto
    with h obtain fq cn pn p0 where "?eA = (fq, cn, pn, Some p0, Some (cn, pt))"
      "get_plugin rd (cn, pt) pn \<noteq> None" "fq = cn @ ''.'' @ pn"
      by (rule hops_nodes)
    then show ?thesis by auto
  qed
  have locs: "(cA, nA) \<noteq> (cB, nB)" "(cA, nA) \<noteq> (cC, nC)" "(cB, nB) \<noteq> (cC, nC)"
    using ne nodeA nodeB(3) nodeC(3) by auto
  define l where "l =
       \<lparr>var_routing_data = ?rd3,
        var_plugin_data = (if A = S then ?newA else p),
        var_redirection_list = pre,
        var_next_name = A, var_redirect_chain = Some [A, B, C, A],
        var_redirect_deprecations = Some [(A, dA), (C, dC)],
        var_redirect_tombstone = False, var_redirect_dead_end = False,
        var_redirect_error = ?err, var_is_loop = True\<rparr>"
  have "found_cycle rd S p (pre @ [?eA, ?eB, ?eC]) A = Inr l"
    unfolding l_def using out(1) S dep by (rule three_cycle_found)
  then have fc: "found_cycle rd S p (?start # es) A = Inr l"
    by (simp only: path)
  have "A \<in> insert S (set (map fst es))"
    using names by (metis in_set_conv_decomp list.set_intros(1) list.simps(15) set_append)
  with fc have body: "loop_body rd pt S p (insert S (set (map fst es))) (?start # es) A = Break l"
    by (simp add: loop_body_def)
  obtain rd' p' chain' deps' where pf:
    "prefix_for S Ellipsis False False ?err (rev pre)
       (?rd3, if A = S then ?newA else p, Some [A, B, C, A], Some [(A, dA), (C, dC)])
     = (rd', p', chain', deps')"
    by (cases "prefix_for S Ellipsis False False ?err (rev pre)
       (?rd3, if A = S then ?newA else p, Some [A, B, C, A], Some [(A, dA), (C, dC)])") auto
  then have pf': "prefix_for S
       (if var_is_loop l then Ellipsis else RedirectTo (var_next_name l))
       (var_redirect_tombstone l) (var_redirect_dead_end l) (var_redirect_error l)
       (rev (var_redirection_list l))
       (var_routing_data l, var_plugin_data l, var_redirect_chain l,
        var_redirect_deprecations l)
     = (rd', p', chain', deps')"
    by (simp add: l_def)
  have "distinct (map fst es)" "S \<notin> set (map fst es)"
    using dist by simp_all
  with r ch h have res: "complete_redirect p rd c pt n = Inr (p', rd')"
    using body pf' unfolding S_def by (rule complete_redirect_exit)
  have c3: "get_plugin ?rd3 (cC, pt) nC = Some ?newC"
    unfolding nodeC(1)
    by (intro owner_assign_hit get_plugin_owner_assign_Some nodeC(2))
  have "get_plugin ?rd2 (cB, pt) nB = Some ?newB"
    unfolding nodeB(1)
    by (intro owner_assign_hit get_plugin_owner_assign_Some nodeB(2))
  moreover have "get_plugin ?rd3 (cB, pt) nB = get_plugin ?rd2 (cB, pt) nB"
    using locs(3) by (intro owner_assign_miss) (auto simp: nodeC(1))
  ultimately have b3: "get_plugin ?rd3 (cB, pt) nB = Some ?newB"
    by simp
  have rec:
    "redirect ?newA = Ellipsis" "redirect_chain ?newA = Some [A, B, C, A]"
    "redirect_deprecations ?newA = Some [(A, dA), (C, dC)]"
    "redirect ?newB = Ellipsis" "redirect_chain ?newB = Some [B, C, A, B]"
    "redirect_deprecations ?newB = Some [(C, dC), (A, dA)]"
    "redirect ?newC = Ellipsis" "redirect_chain ?newC = Some [C, A, B, C]"
    "redirect_deprecations ?newC = Some [(C, dC), (A, dA)]"
    by (simp_all add: cycle_record_def tuple_or_none_def)
  show ?thesis
  proof (cases pre)
    case Nil
    with path have eq: "S = A" "c = cA" "n = nA" "p = pA" "oA = None" "es = [?eB, ?eC]"
      by simp_all
    from pf have "(?rd3, ?newA, Some [A, B, C, A], Some [(A, dA), (C, dC)])
        = (rd', p', chain', deps')"
      by (simp only: Nil rev.simps prefix_for.simps eq(1) HOL.simp_thms if_True)
    then have out': "rd' = ?rd3" "p' = ?newA"
      by auto
    have "redirect_chain ?newA = Some (map fst pre @ [A, B, C, A])"
      "redirect_deprecations ?newA = Some (own_deprecations pre @ [(A, dA), (C, dC)])"
      by (simp_all add: Nil rec)
    moreover have "if pre = [] then ?newA = ?newA else get_plugin ?rd3 (cA, pt) nA = Some ?newA"
      by (simp add: Nil)
    ultimately show ?thesis
      using res b3 c3 rec unfolding out' by blast
  next
    case (Cons s pre')
    with path have s: "s = ?start" and es: "es = pre' @ [?eA, ?eB, ?eC]"
      by simp_all
    have SA: "S \<noteq> A"
      using out(1) names Cons by auto
    from es have "?eA \<in> set es" by simp
    with h obtain fq cn pn p0 where "?eA = (fq, cn, pn, Some p0, Some (cn, pt))"
      "get_plugin rd (cn, pt) pn \<noteq> None" "fq = cn @ ''.'' @ pn"
      by (rule hops_nodes)
    then have nodeA': "oA = Some (cA, pt)" "get_plugin rd (cA, pt) nA \<noteq> None"
      by auto
    have "get_plugin ?rd1 (cA, pt) nA = Some ?newA"
      unfolding nodeA'(1) by (intro owner_assign_hit nodeA'(2))
    moreover have "get_plugin ?rd2 (cA, pt) nA = get_plugin ?rd1 (cA, pt) nA"
      using locs(1) by (intro owner_assign_miss) (auto simp: nodeB(1))
    moreover have "get_plugin ?rd3 (cA, pt) nA = get_plugin ?rd2 (cA, pt) nA"
      using locs(2) by (intro owner_assign_miss) (auto simp: nodeC(1))
    ultimately have a3: "get_plugin ?rd3 (cA, pt) nA = Some ?newA"
      by simp
    have frame: "snd (snd (snd (snd e))) \<noteq> Some (cX, pt) \<or> fst (snd (snd e)) \<noteq> nX"
      if "e \<in> set (rev pre)" and "cX @ ''.'' @ nX \<notin> set (map fst pre)" for e cX nX
    proof (cases "e = ?start")
      case True
      then show ?thesis by simp
    next
      case False
      with that(1) have "e \<in> set pre'" by (simp add: Cons s)
      then have "e \<in> set es" by (simp add: es)
      with h obtain fq cn pn p0 where e: "e = (fq, cn, pn, Some p0, Some (cn, pt))"
        "get_plugin rd (cn, pt) pn \<noteq> None" "fq = cn @ ''.'' @ pn"
        by (rule hops_nodes)
      from that(1) have "fst e \<in> set (map fst pre)" by simp
      with that(2) e(1,3) show ?thesis by auto
    qed
    have keep: "get_plugin rd' (cX, pt) nX = get_plugin ?rd3 (cX, pt) nX"
      if "cX @ ''.'' @ nX \<notin> set (map fst pre)" for cX nX
      using pf by (rule prefix_for_frame) (use that frame in blast)
    have a: "if pre = [] then ?newA = p' else get_plugin rd' (cA, pt) nA = Some ?newA"
      using keep [of cA nA] a3 out(1) by (simp add: nodeA Cons)
    have b: "get_plugin rd' (cB, pt) nB = Some ?newB"
      using keep [of cB nB] b3 out(2) by (simp add: nodeB(3))
    have c: "get_plugin rd' (cC, pt) nC = Some ?newC"
      using keep [of cC nC] c3 out(3) by (simp add: nodeC(3))
    from pf have "prefix_for S Ellipsis False False ?err (rev ((S, c, n, Some p, None) # pre'))
       (?rd3, if A = S then ?newA else p, Some [A, B, C, A], Some [(A, dA), (C, dC)])
     = (rd', p', chain', deps')"
      by (simp only: Cons s)
    from prefix_for_start [OF this] have "redirect p' = Ellipsis"
      "redirect_chain p' = Some (S # map fst pre' @ [A, B, C, A])"
      "redirect_deprecations p'
         = Some (own_deprecations ((S, c, n, Some p, None) # pre') @ [(A, dA), (C, dC)])"
      by (simp_all add: rewritten_record_def or_empty_def prepend_deprecations_def)
    then have "redirect p' = Ellipsis" "redirect_chain p' = Some (map fst pre @ [A, B, C, A])"
      "redirect_deprecations p' = Some (own_deprecations pre @ [(A, dA), (C, dC)])"
      by (simp_all add: Cons s)
    with res a b c rec show ?thesis
      by blast
  qed
qed

text \<open>The cycle of \<^const>\<open>loop_3\<close>, resolved from \<^verbatim>\<open>loop_1\<close> itself: the path is the cycle.\<close>

lemma cycle_entered_at_start:
  "\<exists>p' rd' xA xB xC.
     complete_redirect ((redirecting ''bar.baz.loop_2'')\<lparr>deprecation := Some old_removal\<rparr>)
       loop_3 ''foo.bar'' ''module'' ''loop_1'' = Inr (p', rd')
     \<and> redirect p' = Ellipsis
     \<and> redirect_chain p'
         = Some [''foo.bar.loop_1'', ''bar.baz.loop_2'', ''foo.bar.loop_3'', ''foo.bar.loop_1'']
     \<and> redirect_deprecations p'
         = Some [(''foo.bar.loop_1'', old_removal), (''foo.bar.loop_3'', dead_removal)]
     \<and> xA = p'
     \<and> redirect xA = Ellipsis
     \<and> redirect_chain xA
         = Some [''foo.bar.loop_1'', ''bar.baz.loop_2'', ''foo.bar.loop_3'', ''foo.bar.loop_1'']
     \<and> redirect_deprecations xA
         = Some [(''foo.bar.loop_1'', old_removal), (''foo.bar.loop_3'', dead_removal)]
     \<and> get_plugin rd' (''bar.baz'', ''module'') ''loop_2'' = Some xB
     \<and> redirect xB = Ellipsis
     \<and> redirect_chain xB
         = Some [''bar.baz.loop_2'', ''foo.bar.loop_3'', ''foo.bar.loop_1'', ''bar.baz.loop_2'']
     \<and> redirect_deprecations xB
         = Some [(''foo.bar.loop_3'', dead_removal), (''foo.bar.loop_1'', old_removal)]
     \<and> get_plugin rd' (''foo.bar'', ''module'') ''loop_3'' = Some xC
     \<and> redirect xC = Ellipsis
     \<and> redirect_chain xC
         = Some [''foo.bar.loop_3'', ''foo.bar.loop_1'', ''bar.baz.loop_2'', ''foo.bar.loop_3'']
     \<and> redirect_deprecations xC
         = Some [(''foo.bar.loop_3'', dead_removal), (''foo.bar.loop_1'', old_removal)]"
proof -
  let ?pA = "(redirecting ''bar.baz.loop_2'')\<lparr>deprecation := Some old_removal\<rparr>"
  let ?pB = "redirecting ''foo.bar.loop_3''"
  let ?pC = "(redirecting ''foo.bar.loop_1'')\<lparr>deprecation := Some dead_removal\<rparr>"
  let ?eB = "(''bar.baz.loop_2'', ''bar.baz'', ''loop_2'', Some ?pB, Some (''bar.baz'', ''module''))"
  let ?eC = "(''foo.bar.loop_3'', ''foo.bar'', ''loop_3'', Some ?pC, Some (''foo.bar'', ''module''))"
  have 1: "redirect ?pA = RedirectTo ''bar.baz.loop_2''" "redirect_chain ?pA = None"
    by (simp_all add: redirecting_def blank_routing_def)
  have 3: "hops loop_3 ''module'' ''bar.baz.loop_2'' [?eB, ?eC] ''foo.bar.loop_1''"
    by code_simp
  have 4: "(''foo.bar'' @ ''.'' @ ''loop_1'', ''foo.bar'', ''loop_1'', Some ?pA, None) # [?eB, ?eC]
      = [] @ [(''foo.bar.loop_1'', ''foo.bar'', ''loop_1'', Some ?pA, None), ?eB, ?eC]"
    by simp
  have 5: "distinct (map fst ((''foo.bar'' @ ''.'' @ ''loop_1'', ''foo.bar'', ''loop_1'',
      Some ?pA, None) # [?eB, ?eC]))"
    by simp
  have 6: "deprecation ?pA = Some old_removal" "deprecation ?pB = None"
    "deprecation ?pC = Some dead_removal"
    by (simp_all add: redirecting_def blank_routing_def)
  from cycle_entered [OF 1 3 4 5 6] show ?thesis
    by simp
qed

text \<open>
  Claim C1. Let \<open>A\<close>, \<open>B\<close>, \<open>C\<close> be three plugins, \<open>A\<close> redirecting to \<open>B\<close>, \<open>B\<close> to \<open>C\<close> and
  \<open>C\<close> to \<open>A\<close>, none of them resolved, with a deprecation \<open>dA\<close> on \<open>A\<close>, none on \<open>B\<close> and
  \<open>dC\<close> on \<open>C\<close>. Let the resolution of a plugin enter this cycle at \<open>A\<close>: the path of its
  walk is \<open>pre @ [A, B, C]\<close>, where \<open>pre\<close> is empty when the plugin is \<open>A\<close> itself and
  else holds the plugins in front of the cycle. When \<^verbatim>\<open>_complete_redirect\<close> returns, all
  three are marked as cycles; the chain of each is the cycle rotated to start at it, with
  its own FQN again at the end, and the deprecations are rotated the same way:
  \<open>((A,dA),(C,dC))\<close> for \<open>A\<close> and \<open>((C,dC),(A,dA))\<close> for \<open>B\<close> and for \<open>C\<close>. The records of
  \<open>B\<close> and \<open>C\<close> are stored in the catalog; that of \<open>A\<close> is the returned record when the
  resolution started at \<open>A\<close>, and is stored in the catalog otherwise. The returned record
  is marked as a cycle in both cases; its chain is the path followed by \<open>A\<close>, and its
  deprecations are those of \<open>pre\<close> followed by those of the cycle.
\<close>

theorem cycle_rotation:
  assumes "redirect p = RedirectTo r" and "redirect_chain p = None"
    and "hops rd pt r es A"
    and "(c @ ''.'' @ n, c, n, Some p, None) # es
        = pre @ [(A, cA, nA, Some pA, oA), (B, cB, nB, Some pB, oB), (C, cC, nC, Some pC, oC)]"
    and "distinct (map fst ((c @ ''.'' @ n, c, n, Some p, None) # es))"
    and "deprecation pA = Some dA" "deprecation pB = None" "deprecation pC = Some dC"
  shows "\<exists>p' rd' xA xB xC. complete_redirect p rd c pt n = Inr (p', rd')
     \<and> redirect p' = Ellipsis
     \<and> redirect_chain p' = Some (map fst pre @ [A, B, C, A])
     \<and> redirect_deprecations p' = Some (own_deprecations pre @ [(A, dA), (C, dC)])
     \<and> (if pre = [] then xA = p' else get_plugin rd' (cA, pt) nA = Some xA)
     \<and> redirect xA = Ellipsis
     \<and> redirect_chain xA = Some [A, B, C, A]
     \<and> redirect_deprecations xA = Some [(A, dA), (C, dC)]
     \<and> get_plugin rd' (cB, pt) nB = Some xB
     \<and> redirect xB = Ellipsis
     \<and> redirect_chain xB = Some [B, C, A, B]
     \<and> redirect_deprecations xB = Some [(C, dC), (A, dA)]
     \<and> get_plugin rd' (cC, pt) nC = Some xC
     \<and> redirect xC = Ellipsis
     \<and> redirect_chain xC = Some [C, A, B, C]
     \<and> redirect_deprecations xC = Some [(C, dC), (A, dA)]"
  using assms by (rule cycle_entered)

theorem cycle_rotation_witness:
  "\<exists>p' rd' xA xB xC.
     complete_redirect (redirecting ''foo.bar.pre_loop_2'')
       loop_3 ''foo.bar'' ''module'' ''pre_loop_1'' = Inr (p', rd')
     \<and> redirect p' = Ellipsis
     \<and> redirect_chain p'
         = Some [''foo.bar.pre_loop_1'', ''foo.bar.pre_loop_2'',
                 ''foo.bar.loop_1'', ''bar.baz.loop_2'', ''foo.bar.loop_3'', ''foo.bar.loop_1'']
     \<and> redirect_deprecations p'
         = Some [(''foo.bar.pre_loop_2'', pre_removal),
                 (''foo.bar.loop_1'', old_removal), (''foo.bar.loop_3'', dead_removal)]
     \<and> get_plugin rd' (''foo.bar'', ''module'') ''loop_1'' = Some xA
     \<and> redirect xA = Ellipsis
     \<and> redirect_chain xA
         = Some [''foo.bar.loop_1'', ''bar.baz.loop_2'', ''foo.bar.loop_3'', ''foo.bar.loop_1'']
     \<and> redirect_deprecations xA
         = Some [(''foo.bar.loop_1'', old_removal), (''foo.bar.loop_3'', dead_removal)]
     \<and> get_plugin rd' (''bar.baz'', ''module'') ''loop_2'' = Some xB
     \<and> redirect xB = Ellipsis
     \<and> redirect_chain xB
         = Some [''bar.baz.loop_2'', ''foo.bar.loop_3'', ''foo.bar.loop_1'', ''bar.baz.loop_2'']
     \<and> redirect_deprecations xB
         = Some [(''foo.bar.loop_3'', dead_removal), (''foo.bar.loop_1'', old_removal)]
     \<and> get_plugin rd' (''foo.bar'', ''module'') ''loop_3'' = Some xC
     \<and> redirect xC = Ellipsis
     \<and> redirect_chain xC
         = Some [''foo.bar.loop_3'', ''foo.bar.loop_1'', ''bar.baz.loop_2'', ''foo.bar.loop_3'']
     \<and> redirect_deprecations xC
         = Some [(''foo.bar.loop_3'', dead_removal), (''foo.bar.loop_1'', old_removal)]"
proof -
  let ?p = "redirecting ''foo.bar.pre_loop_2''"
  let ?p2 = "(redirecting ''foo.bar.loop_1'')\<lparr>deprecation := Some pre_removal\<rparr>"
  let ?pA = "(redirecting ''bar.baz.loop_2'')\<lparr>deprecation := Some old_removal\<rparr>"
  let ?pB = "redirecting ''foo.bar.loop_3''"
  let ?pC = "(redirecting ''foo.bar.loop_1'')\<lparr>deprecation := Some dead_removal\<rparr>"
  let ?e2 = "(''foo.bar.pre_loop_2'', ''foo.bar'', ''pre_loop_2'', Some ?p2, Some (''foo.bar'', ''module''))"
  let ?eA = "(''foo.bar.loop_1'', ''foo.bar'', ''loop_1'', Some ?pA, Some (''foo.bar'', ''module''))"
  let ?eB = "(''bar.baz.loop_2'', ''bar.baz'', ''loop_2'', Some ?pB, Some (''bar.baz'', ''module''))"
  let ?eC = "(''foo.bar.loop_3'', ''foo.bar'', ''loop_3'', Some ?pC, Some (''foo.bar'', ''module''))"
  have 1: "redirect ?p = RedirectTo ''foo.bar.pre_loop_2''" "redirect_chain ?p = None"
    by (simp_all add: redirecting_def blank_routing_def)
  have 3: "hops loop_3 ''module'' ''foo.bar.pre_loop_2'' [?e2, ?eA, ?eB, ?eC] ''foo.bar.loop_1''"
    by code_simp
  have 4: "(''foo.bar'' @ ''.'' @ ''pre_loop_1'', ''foo.bar'', ''pre_loop_1'', Some ?p, None)
        # [?e2, ?eA, ?eB, ?eC]
      = [(''foo.bar'' @ ''.'' @ ''pre_loop_1'', ''foo.bar'', ''pre_loop_1'', Some ?p, None), ?e2]
        @ [?eA, ?eB, ?eC]"
    by simp
  have 5: "distinct (map fst ((''foo.bar'' @ ''.'' @ ''pre_loop_1'', ''foo.bar'', ''pre_loop_1'',
      Some ?p, None) # [?e2, ?eA, ?eB, ?eC]))"
    by simp
  have 6: "deprecation ?pA = Some old_removal" "deprecation ?pB = None"
    "deprecation ?pC = Some dead_removal"
    by (simp_all add: redirecting_def blank_routing_def)
  have 7: "own_deprecations
      [(''foo.bar'' @ ''.'' @ ''pre_loop_1'', ''foo.bar'', ''pre_loop_1'', Some ?p, None), ?e2]
      = [(''foo.bar.pre_loop_2'', pre_removal)]"
    by (simp add: redirecting_def blank_routing_def)
  from cycle_rotation [OF 1 3 4 5 6] show ?thesis
    unfolding 7 by simp
qed

lemma cycle_marks_closedD:
  assumes "cycle_marks_closed rd"
  shows "cycles_closed rd"
  unfolding cycles_closed_def
proof (intro allI impI)
  fix a n x
  assume "get_plugin rd a n = Some x"
  then obtain cr d where h: "map_of rd (fst a) = Some cr"
    "map_of (plugin_data cr) (snd a) = Some d" "map_of d n = Some x"
    by (auto simp: get_plugin_def owner_dict_def split: option.splits)
  from h(1) have "(fst a, cr) \<in> set rd" by (rule map_of_SomeD)
  moreover from h(2) have "(snd a, d) \<in> set (plugin_data cr)" by (rule map_of_SomeD)
  moreover from h(3) have "(n, x) \<in> set d" by (rule map_of_SomeD)
  ultimately show "ends_in_cycle x"
    using assms unfolding cycle_marks_closed_def by blast
qed

lemma loader_ends_in_cycle:
  assumes "parse_plugin_data pd own_name real_plugin_type plugin_name = Inr x"
  shows "ends_in_cycle x"
  using assms unfolding parse_plugin_data_def Let_def
  by (auto simp: ends_in_cycle_def closed_chain_def
      split: if_splits yaml.splits sum.splits option.splits)

lemma cycles_closed_owner_assign:
  assumes "cycles_closed rd" and "ends_in_cycle v"
  shows "cycles_closed (owner_assign rd owner n v)"
  using assms by (auto simp: cycles_closed_def get_plugin_owner_assign split: if_splits)

lemma cycles_closed_set_plugin:
  assumes "cycles_closed rd" and "ends_in_cycle v"
  shows "cycles_closed (set_plugin rd a n v)"
  using assms by (auto simp: cycles_closed_def get_plugin_set_plugin split: if_splits)

lemma closed_chain_snoc: "closed_chain ((fq # xs) @ [fq])"
  by (simp add: closed_chain_def butlast_append)

lemma closed_chain_Cons: "closed_chain ch \<Longrightarrow> closed_chain (fq # ch)"
  by (auto simp: closed_chain_def)

lemma cycle_for_closed:
  assumes "cycle_for fqcn err deps es (rd, pdata, chain) = (rd', pdata', chain')"
    and "cycles_closed rd" and "ends_in_cycle pdata"
    and "\<exists>ys. chain = map (fst \<circ> snd) es @ ys"
  shows "cycles_closed rd' \<and> ends_in_cycle pdata'"
  using assms
proof (induction es arbitrary: rd pdata chain)
  case Nil
  then show ?case by simp
next
  case (Cons ie es)
  obtain index fq cn pn ppd owner where ie: "ie = (index, (fq, cn, pn, ppd, owner))"
    by (cases ie) auto
  from Cons.prems(4) obtain ys where chain: "chain = fq # map (fst \<circ> snd) es @ ys"
    by (auto simp: ie)
  have tail: "\<exists>zs. drop 1 (chain @ [fq]) = map (fst \<circ> snd) es @ zs"
    by (simp add: chain)
  show ?case
  proof (cases ppd)
    case None
    with Cons.prems(1) have
      "cycle_for fqcn err deps es (rd, pdata, drop 1 (chain @ [fq])) = (rd', pdata', chain')"
      by (simp add: ie)
    from Cons.IH [OF this Cons.prems(2,3) tail] show ?thesis .
  next
    case (Some p)
    define new where "new =
       \<lparr>action_plugin = action_plugin p, redirect = Ellipsis,
        redirect_chain = Some (chain @ [fq]),
        redirect_deprecations =
          tuple_or_none
            (map snd (filter (\<lambda>(idx, e). idx \<ge> index) deps)
             @ map snd (filter (\<lambda>(idx, e). idx < index) deps)),
        redirect_tombstone = False, redirect_dead_end = False, redirect_error = err,
        deprecation = deprecation p, tombstone = tombstone p\<rparr>"
    have "closed_chain (chain @ [fq])"
      unfolding chain by (rule closed_chain_snoc)
    then have new: "ends_in_cycle new"
      by (simp add: ends_in_cycle_def new_def)
    from Cons.prems(1) have run:
      "cycle_for fqcn err deps es
         (owner_assign rd owner pn new, if fq = fqcn then new else pdata, drop 1 (chain @ [fq]))
       = (rd', pdata', chain')"
      unfolding ie Some new_def by (simp only: cycle_for.simps Let_def option.case)
    have 1: "cycles_closed (owner_assign rd owner pn new)"
      using Cons.prems(2) new by (rule cycles_closed_owner_assign)
    have 2: "ends_in_cycle (if fq = fqcn then new else pdata)"
      using Cons.prems(3) new by simp
    from Cons.IH [OF run 1 2 tail] show ?thesis .
  qed
qed

text \<open>The loop over the cycle leaves \<^verbatim>\<open>redirect_chain\<close> rotated once around.\<close>

lemma cycle_for_chain:
  assumes "cycle_for fqcn err deps es (rd, pdata, map (fst \<circ> snd) es @ ys) = (rd', pdata', chain')"
  shows "chain' = ys @ map (fst \<circ> snd) es"
  using assms
proof (induction es arbitrary: rd pdata ys)
  case Nil
  then show ?case by simp
next
  case (Cons ie es)
  obtain index fq cn pn ppd owner where ie: "ie = (index, (fq, cn, pn, ppd, owner))"
    by (cases ie) auto
  have start: "map (fst \<circ> snd) ((index, (fq, cn, pn, ppd, owner)) # es) @ ys
      = fq # map (fst \<circ> snd) es @ ys"
    by simp
  have tail: "drop 1 ((fq # map (fst \<circ> snd) es @ ys) @ [fq]) = map (fst \<circ> snd) es @ (ys @ [fq])"
    by simp
  from Cons.prems have prem:
    "cycle_for fqcn err deps ((index, (fq, cn, pn, ppd, owner)) # es)
       (rd, pdata, fq # map (fst \<circ> snd) es @ ys) = (rd', pdata', chain')"
    unfolding ie start .
  have "chain' = (ys @ [fq]) @ map (fst \<circ> snd) es"
  proof (cases ppd)
    case None
    from prem have
      "cycle_for fqcn err deps es (rd, pdata, map (fst \<circ> snd) es @ (ys @ [fq]))
       = (rd', pdata', chain')"
      unfolding None by (simp only: cycle_for.simps Let_def option.case tail)
    then show ?thesis by (rule Cons.IH)
  next
    case (Some p)
    define new where "new =
       \<lparr>action_plugin = action_plugin p, redirect = Ellipsis,
        redirect_chain = Some ((fq # map (fst \<circ> snd) es @ ys) @ [fq]),
        redirect_deprecations =
          tuple_or_none
            (map snd (filter (\<lambda>(idx, e). idx \<ge> index) deps)
             @ map snd (filter (\<lambda>(idx, e). idx < index) deps)),
        redirect_tombstone = False, redirect_dead_end = False, redirect_error = err,
        deprecation = deprecation p, tombstone = tombstone p\<rparr>"
    from prem have
      "cycle_for fqcn err deps es
         (owner_assign rd owner pn new, if fq = fqcn then new else pdata,
          map (fst \<circ> snd) es @ (ys @ [fq]))
       = (rd', pdata', chain')"
      unfolding Some new_def by (simp only: cycle_for.simps Let_def option.case tail)
    then show ?thesis by (rule Cons.IH)
  qed
  then show ?case
    by (simp add: ie)
qed

lemma start_index_of_Some:
  assumes "start_index_of name path = Some i"
  shows "i < length path \<and> fst (path ! i) = name"
  using assms
proof (induction path arbitrary: i)
  case Nil
  then show ?case by simp
next
  case (Cons e path)
  then show ?case
    by (cases "fst e = name") (auto split: option.splits)
qed

lemma found_cycle_closed:
  assumes "found_cycle rd fqcn pdata path next_name = Inr l"
    and "cycles_closed rd" and "ends_in_cycle pdata"
  shows "exit_closed l"
proof -
  from assms(1) obtain i where i: "start_index_of next_name path = Some i"
    by (auto simp: found_cycle_def split: option.splits)
  define loop where "loop = drop i path"
  define es where "es = enumerate 0 loop"
  obtain rd' pdata' chain' where run:
    "cycle_for fqcn (Some ''Detected circular redirect'') (deprecations_w_index es) es
       (rd, pdata, map fst loop) = (rd', pdata', chain')"
    by (cases "cycle_for fqcn (Some ''Detected circular redirect'') (deprecations_w_index es) es
       (rd, pdata, map fst loop)") auto
  from assms(1) have l: "var_routing_data l = rd'" "var_plugin_data l = pdata'"
    "var_is_loop l" "var_redirect_chain l = Some (chain' @ [next_name])"
    using run by (auto simp: found_cycle_def i Let_def loop_def es_def)
  have names: "map fst loop = map (fst \<circ> snd) es @ []"
    by (simp add: es_def map_snd_enumerate flip: map_map)
  then have "\<exists>ys. map fst loop = map (fst \<circ> snd) es @ ys"
    by blast
  with run assms(2,3) have inv: "cycles_closed rd'" "ends_in_cycle pdata'"
    using cycle_for_closed by blast+
  from run have "chain' = [] @ map (fst \<circ> snd) es"
    unfolding names by (rule cycle_for_chain)
  with names have chain': "chain' = map fst loop"
    by simp
  from start_index_of_Some [OF i] have "i < length path" "fst (path ! i) = next_name"
    by simp_all
  then have "next_name \<in> set (map fst loop)"
    unfolding loop_def by (metis Cons_nth_drop_Suc list.set_intros(1) list.simps(9))
  then have "closed_chain (chain' @ [next_name])"
    by (auto simp: closed_chain_def chain' butlast_append)
  with inv show ?thesis
    by (simp add: exit_closed_def l)
qed

text \<open>A \<^verbatim>\<open>break\<close> outside the cycle branch sets \<^verbatim>\<open>is_loop\<close> only from a stored record.\<close>

lemma loop_body_Break_loop:
  assumes "loop_body rd pt fqcn pdata found path next_name = Break l"
    and "next_name \<notin> found"
  shows "var_routing_data l = rd \<and> var_plugin_data l = pdata
     \<and> (var_is_loop l \<longrightarrow>
          (\<exists>cn pn cr prd pd. map_of rd cn = Some cr
             \<and> map_of (plugin_data cr) pt = Some prd \<and> map_of prd pn = Some pd
             \<and> redirect pd = Ellipsis \<and> var_redirect_chain l = redirect_chain pd))"
  using assms unfolding loop_body_def Let_def
  by (auto split: if_splits list.splits option.splits redirect_t.splits sum.splits) blast+

lemma loop_body_closed:
  assumes "loop_body rd pt fqcn pdata found path next_name = Break l"
    and "cycles_closed rd" and "ends_in_cycle pdata"
  shows "exit_closed l"
proof (cases "next_name \<in> found")
  case True
  with assms(1) have "found_cycle rd fqcn pdata path next_name = Inr l"
    by (auto simp: loop_body_def split: sum.splits)
  then show ?thesis
    using assms(2,3) by (rule found_cycle_closed)
next
  case False
  note b = loop_body_Break_loop [OF assms(1) False]
  have "case var_redirect_chain l of None \<Rightarrow> False | Some ch \<Rightarrow> closed_chain ch"
    if "var_is_loop l"
  proof -
    from b that obtain cn pn cr prd pd where h:
      "map_of rd cn = Some cr"
      "map_of (plugin_data cr) pt = Some prd" "map_of prd pn = Some pd"
      "redirect pd = Ellipsis" "var_redirect_chain l = redirect_chain pd"
      by blast
    have "get_plugin rd (cn, pt) pn = Some pd"
      using h(1-3) by (simp add: get_plugin_def owner_dict_def)
    with assms(2) have "ends_in_cycle pd"
      by (auto simp: cycles_closed_def)
    with h(4,5) show ?thesis
      by (simp add: ends_in_cycle_def)
  qed
  with b assms(2,3) show ?thesis
    by (simp add: exit_closed_def)
qed

lemma walk_closed:
  assumes "walk rd pt fqcn pdata found path next_name = Inr l"
    and "cycles_closed rd" and "ends_in_cycle pdata"
  shows "exit_closed l"
  using assms
proof (induction rd pt fqcn pdata found path next_name rule: walk.induct)
  case (1 rd pt fqcn pdata found path next_name)
  show ?case
  proof (cases "loop_body rd pt fqcn pdata found path next_name")
    case (Continue found' path' next_name')
    from "1.prems"(1) have "walk rd pt fqcn pdata found' path' next_name' = Inr l"
      by (simp add: walk.simps [of rd pt fqcn pdata found path] Continue)
    from "1.IH" [OF Continue this "1.prems"(2,3)] show ?thesis .
  next
    case (Break l')
    with "1.prems"(1) have "l' = l"
      by (simp add: walk.simps [of rd pt fqcn pdata found path])
    with Break "1.prems"(2,3) show ?thesis
      by (simp add: loop_body_closed)
  next
    case (Raise e)
    with "1.prems"(1) show ?thesis
      by (simp add: walk.simps [of rd pt fqcn pdata found path])
  qed
qed

lemma prefix_for_closed:
  assumes "prefix_for fqcn redir tomb dead err es (rd, pdata, chain, deps)
             = (rd', pdata', chain', deps')"
    and "cycles_closed rd" and "ends_in_cycle pdata"
    and "redir = Ellipsis \<longrightarrow> (case chain of None \<Rightarrow> False | Some ch \<Rightarrow> closed_chain ch)"
  shows "cycles_closed rd' \<and> ends_in_cycle pdata'"
  using assms
proof (induction es arbitrary: rd pdata chain deps)
  case Nil
  then show ?case by simp
next
  case (Cons e es)
  obtain fq cn pn ppd owner where e: "e = (fq, cn, pn, ppd, owner)"
    by (cases e) auto
  have next_chain: "redir = Ellipsis \<longrightarrow>
      (case Some (fq # or_empty chain) of None \<Rightarrow> False | Some ch \<Rightarrow> closed_chain ch)"
    using Cons.prems(4)
    by (cases chain) (auto simp: or_empty_def intro: closed_chain_Cons)
  show ?case
  proof (cases ppd)
    case None
    with Cons.prems(1) have
      "prefix_for fqcn redir tomb dead err es (rd, pdata, Some (fq # or_empty chain), deps)
       = (rd', pdata', chain', deps')"
      by (simp add: e)
    from Cons.IH [OF this Cons.prems(2,3) next_chain] show ?thesis .
  next
    case (Some p)
    define deps1 where "deps1 =
      (case deprecation p of None \<Rightarrow> deps | Some d \<Rightarrow> Some ((fq, d) # or_empty deps))"
    define new where "new =
       \<lparr>action_plugin = action_plugin p, redirect = redir,
        redirect_chain = Some (fq # or_empty chain),
        redirect_deprecations = deps1,
        redirect_tombstone = tomb, redirect_dead_end = dead, redirect_error = err,
        deprecation = deprecation p, tombstone = tombstone p\<rparr>"
    have new: "ends_in_cycle new"
      using next_chain by (simp add: ends_in_cycle_def new_def)
    from Cons.prems(1) have run:
      "prefix_for fqcn redir tomb dead err es
         (owner_assign rd owner pn new, if fq = fqcn then new else pdata,
          Some (fq # or_empty chain), deps1)
       = (rd', pdata', chain', deps')"
      unfolding e Some new_def deps1_def by (simp only: prefix_for.simps Let_def option.case)
    have 1: "cycles_closed (owner_assign rd owner pn new)"
      using Cons.prems(2) new by (rule cycles_closed_owner_assign)
    have 2: "ends_in_cycle (if fq = fqcn then new else pdata)"
      using Cons.prems(3) new by simp
    from Cons.IH [OF run 1 2 next_chain] show ?thesis .
  qed
qed

lemma complete_redirect_closed:
  assumes "complete_redirect p rd c pt n = Inr (p', rd')"
    and "cycles_closed rd" and "ends_in_cycle p"
  shows "cycles_closed rd' \<and> ends_in_cycle p'"
proof (cases "already_done p")
  case True
  with assms show ?thesis
    by (simp add: complete_redirect_done)
next
  case False
  let ?fqcn = "c @ ''.'' @ n"
  from False obtain target where t: "redirect p = RedirectTo target" "redirect_chain p = None"
    by (cases "redirect p") (auto simp: already_done_def)
  from assms(1) obtain l where w:
    "walk rd pt ?fqcn p {?fqcn} [(?fqcn, c, n, Some p, None)] target = Inr l"
    by (auto simp: complete_redirect_def t Let_def split: sum.splits)
  let ?redir = "if var_is_loop l then Ellipsis else RedirectTo (var_next_name l)"
  from assms(1) w obtain chain' deps' where pf:
    "prefix_for ?fqcn ?redir (var_redirect_tombstone l) (var_redirect_dead_end l)
       (var_redirect_error l) (rev (var_redirection_list l))
       (var_routing_data l, var_plugin_data l, var_redirect_chain l, var_redirect_deprecations l)
     = (rd', p', chain', deps')"
    by (auto simp: complete_redirect_def t Let_def split: prod.splits)
  from w assms(2,3) have ex: "exit_closed l"
    by (rule walk_closed)
  then have "cycles_closed (var_routing_data l)" "ends_in_cycle (var_plugin_data l)"
    "?redir = Ellipsis \<longrightarrow>
       (case var_redirect_chain l of None \<Rightarrow> False | Some ch \<Rightarrow> closed_chain ch)"
    by (simp_all add: exit_closed_def)
  with pf show ?thesis
    by (rule prefix_for_closed)
qed

lemma complete_names_closed:
  assumes "complete_names rd c pt names = Inr rd'" and "cycles_closed rd"
  shows "cycles_closed rd'"
  using assms
proof (induction names arbitrary: rd)
  case Nil
  then show ?case by simp
next
  case (Cons n names)
  from Cons.prems(1) obtain p p' rd1 where h:
    "get_plugin rd (c, pt) n = Some p"
    "complete_redirect p rd c pt n = Inr (p', rd1)"
    "complete_names (set_plugin rd1 (c, pt) n p') c pt names = Inr rd'"
    by (auto split: option.splits sum.splits)
  from h(1) Cons.prems(2) have "ends_in_cycle p"
    by (auto simp: cycles_closed_def)
  with h(2) Cons.prems(2) have "cycles_closed rd1" "ends_in_cycle p'"
    using complete_redirect_closed by blast+
  then have "cycles_closed (set_plugin rd1 (c, pt) n p')"
    by (rule cycles_closed_set_plugin)
  with h(3) show ?case
    by (rule Cons.IH)
qed

lemma complete_types_closed:
  assumes "complete_types rd c types = Inr rd'" and "cycles_closed rd"
  shows "cycles_closed rd'"
  using assms
proof (induction types arbitrary: rd)
  case Nil
  then show ?case by simp
next
  case (Cons pt types)
  from Cons.prems(1) obtain d rd1 where h:
    "owner_dict rd (c, pt) = Some d"
    "complete_names rd c pt (map fst d) = Inr rd1"
    "complete_types rd1 c types = Inr rd'"
    by (auto split: option.splits sum.splits)
  from h(2) Cons.prems(2) have "cycles_closed rd1"
    by (rule complete_names_closed)
  with h(3) show ?case
    by (rule Cons.IH)
qed

lemma complete_collections_closed:
  assumes "complete_collections rd names = Inr rd'" and "cycles_closed rd"
  shows "cycles_closed rd'"
  using assms
proof (induction names arbitrary: rd)
  case Nil
  then show ?case by simp
next
  case (Cons c names)
  from Cons.prems(1) obtain rd1 where h:
    "complete_redirects_for_collection rd c = Inr rd1"
    "complete_collections rd1 names = Inr rd'"
    by (auto split: sum.splits)
  have "cycles_closed rd1"
  proof (cases "map_of rd c")
    case None
    with h(1) Cons.prems(2) show ?thesis
      by (simp add: complete_redirects_for_collection_def)
  next
    case (Some cr)
    with h(1) have "complete_types rd c (map fst (plugin_data cr)) = Inr rd1"
      by (simp add: complete_redirects_for_collection_def)
    then show ?thesis
      using Cons.prems(2) by (rule complete_types_closed)
  qed
  with h(2) show ?case
    by (rule Cons.IH)
qed

section \<open>Paths of plain redirects\<close>

lemma hops_append:
  assumes "hops rd pt a xs b" and "hops rd pt b ys c"
  shows "hops rd pt a (xs @ ys) c"
  using assms by (induction xs arbitrary: a) (auto split: option.splits)

lemma hops_take:
  assumes "hops rd pt x (as @ e # bs) t"
  shows "hops rd pt x as (fst e)"
  using assms
proof (induction as arbitrary: x)
  case Nil
  then obtain r where "plain_redirect rd pt x = Some (e, r)"
    by (auto split: option.splits)
  then have "fst e = x" by (rule plain_redirect_fst)
  then show ?case by simp
next
  case (Cons a as)
  then show ?case by (auto split: option.splits)
qed

lemma hops_rotate:
  assumes "hops rd pt x (as @ e # bs) x"
  shows "hops rd pt (fst e) (e # bs @ as) (fst e)"
proof -
  from assms have "hops rd pt (fst e) (e # bs) x" by (rule hops_split)
  moreover from assms have "hops rd pt x as (fst e)" by (rule hops_take)
  ultimately have "hops rd pt (fst e) ((e # bs) @ as) (fst e)" by (rule hops_append)
  then show ?thesis by simp
qed

lemma hops_node_plain:
  assumes "hops rd pt x es t" and "e \<in> set es"
  shows "\<exists>r. plain_redirect rd pt (fst e) = Some (e, r)"
proof -
  from assms(2) obtain as bs where es: "es = as @ e # bs"
    by (auto dest: split_list)
  from assms(1) have "hops rd pt (fst e) (e # bs) t"
    unfolding es by (rule hops_split)
  then show ?thesis
    by (auto split: option.splits)
qed

text \<open>Two paths of plain redirects from the same name: the shorter is the start of the longer.\<close>

lemma hops_det:
  assumes "hops rd pt x es t" and "hops rd pt x es' t'" and "length es \<le> length es'"
  shows "\<exists>more. es' = es @ more \<and> hops rd pt t more t'"
  using assms
proof (induction es arbitrary: x es')
  case Nil
  then show ?case by simp
next
  case (Cons e es)
  from Cons.prems(1) obtain r where r: "plain_redirect rd pt x = Some (e, r)" "hops rd pt r es t"
    by (auto split: option.splits)
  from Cons.prems(3) obtain e' es'' where es': "es' = e' # es''"
    by (cases es') auto
  with Cons.prems(2) r(1) have e': "e' = e" "hops rd pt r es'' t'"
    by auto
  from Cons.prems(3) have "length es \<le> length es''"
    by (simp add: es')
  from Cons.IH [OF r(2) e'(2) this] show ?case
    by (auto simp: es' e'(1))
qed

text \<open>A cycle of plain redirects over different plugins is the only one through its start.\<close>

lemma hops_first:
  assumes "hops rd pt x (e # es) t"
  shows "fst e = x"
proof -
  from assms obtain r where "plain_redirect rd pt x = Some (e, r)"
    by (auto split: option.splits)
  then show ?thesis by (rule plain_redirect_fst)
qed

lemma round_once:
  assumes "hops rd pt x es x" and "es \<noteq> []"
    and "hops rd pt x cyc x" and "distinct (map fst cyc)" and "length es \<le> length cyc"
  shows "cyc = es"
proof -
  from hops_det [OF assms(1,3,5)] obtain more where more:
    "cyc = es @ more" "hops rd pt x more x"
    by blast
  from assms(2) obtain e es' where es: "es = e # es'"
    by (cases es) auto
  with assms(1) have e: "fst e = x"
    by (auto intro: hops_first)
  have "more = []"
  proof (cases more)
    case Nil
    then show ?thesis .
  next
    case (Cons e' more')
    with more(2) have "fst e' = x"
      by (auto intro: hops_first)
    with assms(4) e show ?thesis
      by (simp add: more(1) es Cons)
  qed
  with more(1) show ?thesis by simp
qed

lemma round_trip_unique:
  assumes "round_trip rd pt x ch"
    and "hops rd pt x cyc x" and "cyc \<noteq> []" and "distinct (map fst cyc)"
  shows "ch = map fst cyc @ [x]"
proof -
  from assms(1) obtain es where es: "es \<noteq> []" "hops rd pt x es x" "distinct (map fst es)"
    "ch = map fst es @ [x]"
    by (auto simp: round_trip_def)
  have "cyc = es"
  proof (cases "length es \<le> length cyc")
    case True
    with es(2,1) assms(2,4) show ?thesis
      by (rule round_once)
  next
    case False
    then have "length cyc \<le> length es" by simp
    with assms(2,3) es(2,3) have "es = cyc"
      by (rule round_once)
    then show ?thesis by simp
  qed
  with es(4) show ?thesis by simp
qed

text \<open>The paths of plain redirects depend only on the records of their nodes.\<close>

lemma hops_cong:
  assumes "hops rd pt x es t"
    and "\<forall>e \<in> set es. node_record rd' pt e = node_record rd pt e"
  shows "hops rd' pt x es t"
  using assms
proof (induction es arbitrary: x)
  case Nil
  then show ?case by simp
next
  case (Cons e es)
  from Cons.prems(1) obtain r where r: "plain_redirect rd pt x = Some (e, r)" "hops rd pt r es t"
    by (auto split: option.splits)
  from r(1) obtain ns cn pn pd where h:
    "str_split CHR ''.'' 2 x = [ns, cn, pn]"
    "get_plugin rd (ns @ ''.'' @ cn, pt) pn = Some pd"
    "redirect pd = RedirectTo r" "tombstone pd = None" "redirect_error pd = None"
    "\<not> redirect_tombstone pd" "\<not> redirect_dead_end pd"
    "e = (x, ns @ ''.'' @ cn, pn, Some pd, Some (ns @ ''.'' @ cn, pt))"
    by (rule plain_redirect_SomeD)
  from Cons.prems(2) h(2,8) have "get_plugin rd' (ns @ ''.'' @ cn, pt) pn = Some pd"
    by (simp add: node_record_def)
  with h have "plain_redirect rd' pt x = Some (e, r)"
    by (simp add: plain_redirect_def)
  moreover from Cons.IH [OF r(2)] Cons.prems(2) have "hops rd' pt r es t"
    by simp
  ultimately show ?case by simp
qed

section \<open>The walk as a path of plain redirects\<close>

lemma loop_body_Continue_plain:
  assumes "loop_body rd pt fqcn pdata found path next_name = Continue found' path' next_name'"
  shows "\<exists>e. plain_redirect rd pt next_name = Some (e, next_name')
     \<and> path' = path @ [e] \<and> found' = insert next_name found \<and> next_name \<notin> found"
proof -
  from assms obtain ns cn pn cr prd pd where h:
    "next_name \<notin> found"
    "str_split CHR ''.'' 2 next_name = [ns, cn, pn]"
    "map_of rd (ns @ ''.'' @ cn) = Some cr"
    "map_of (plugin_data cr) pt = Some prd"
    "map_of prd pn = Some pd"
    "tombstone pd = None"
    "redirect pd = RedirectTo next_name'"
    "redirect_error pd = None" "\<not> redirect_tombstone pd" "\<not> redirect_dead_end pd"
    "found' = insert next_name found"
    "path' = path @ [(next_name, ns @ ''.'' @ cn, pn, Some pd, Some (ns @ ''.'' @ cn, pt))]"
    by (rule loop_body_Continue)
  have "get_plugin rd (ns @ ''.'' @ cn, pt) pn = Some pd"
    using h(3-5) by (simp add: get_plugin_def owner_dict_def)
  with h(2,6-10) have "plain_redirect rd pt next_name
      = Some ((next_name, ns @ ''.'' @ cn, pn, Some pd, Some (ns @ ''.'' @ cn, pt)), next_name')"
    by (simp add: plain_redirect_def)
  with h(1,11,12) show ?thesis by simp
qed

lemma walk_decompose:
  assumes "walk rd pt fqcn pdata found path next_name = Inr l"
  shows "\<exists>es t. hops rd pt next_name es t \<and> distinct (map fst es)
     \<and> set (map fst es) \<inter> found = {}
     \<and> loop_body rd pt fqcn pdata (found \<union> set (map fst es)) (path @ es) t = Break l"
  using assms
proof (induction rd pt fqcn pdata found path next_name rule: walk.induct)
  case (1 rd pt fqcn pdata found path next_name)
  show ?case
  proof (cases "loop_body rd pt fqcn pdata found path next_name")
    case (Continue found' path' next_name')
    then obtain e where e: "plain_redirect rd pt next_name = Some (e, next_name')"
      "path' = path @ [e]" "found' = insert next_name found" "next_name \<notin> found"
      using loop_body_Continue_plain by blast
    from "1.prems" have "walk rd pt fqcn pdata found' path' next_name' = Inr l"
      by (simp add: walk.simps [of rd pt fqcn pdata found path] Continue)
    from "1.IH" [OF Continue this] obtain es t where ih:
      "hops rd pt next_name' es t" "distinct (map fst es)"
      "set (map fst es) \<inter> found' = {}"
      "loop_body rd pt fqcn pdata (found' \<union> set (map fst es)) (path' @ es) t = Break l"
      by blast
    have fe: "fst e = next_name"
      using e(1) by (rule plain_redirect_fst)
    have "hops rd pt next_name (e # es) t"
      using e(1) ih(1) by simp
    moreover have "distinct (map fst (e # es))"
      using ih(2,3) fe e(3) by auto
    moreover have "set (map fst (e # es)) \<inter> found = {}"
      using ih(3) fe e(3,4) by auto
    moreover have "found \<union> set (map fst (e # es)) = found' \<union> set (map fst es)"
      using fe e(3) by auto
    moreover have "path @ e # es = path' @ es"
      using e(2) by simp
    ultimately show ?thesis
      using ih(4) by (metis (no_types))
  next
    case (Break l')
    with "1.prems" have "l' = l"
      by (simp add: walk.simps [of rd pt fqcn pdata found path])
    with Break have "hops rd pt next_name [] next_name \<and> distinct (map fst [])
       \<and> set (map fst []) \<inter> found = {}
       \<and> loop_body rd pt fqcn pdata (found \<union> set (map fst [])) (path @ []) next_name = Break l"
      by simp
    then show ?thesis by blast
  next
    case (Raise e)
    with "1.prems" show ?thesis
      by (simp add: walk.simps [of rd pt fqcn pdata found path])
  qed
qed

text \<open>What a resolution that is not cut short by the guard consists of.\<close>

lemma complete_redirect_decompose:
  assumes "complete_redirect p rd c pt n = Inr (p', rd')" and "\<not> already_done p"
  obtains r es t l chain' deps' where
    "redirect p = RedirectTo r" "redirect_chain p = None"
    "hops rd pt r es t" "distinct (map fst es)" "c @ ''.'' @ n \<notin> set (map fst es)"
    "loop_body rd pt (c @ ''.'' @ n) p (insert (c @ ''.'' @ n) (set (map fst es)))
       ((c @ ''.'' @ n, c, n, Some p, None) # es) t = Break l"
    "prefix_for (c @ ''.'' @ n)
       (if var_is_loop l then Ellipsis else RedirectTo (var_next_name l))
       (var_redirect_tombstone l) (var_redirect_dead_end l) (var_redirect_error l)
       (rev (var_redirection_list l))
       (var_routing_data l, var_plugin_data l, var_redirect_chain l, var_redirect_deprecations l)
     = (rd', p', chain', deps')"
proof -
  let ?fqcn = "c @ ''.'' @ n"
  from assms(2) obtain r where t: "redirect p = RedirectTo r" "redirect_chain p = None"
    by (cases "redirect p") (auto simp: already_done_def)
  from assms(1) obtain l where w:
    "walk rd pt ?fqcn p {?fqcn} [(?fqcn, c, n, Some p, None)] r = Inr l"
    by (auto simp: complete_redirect_def t Let_def split: sum.splits)
  from assms(1) w obtain chain' deps' where pf:
    "prefix_for ?fqcn (if var_is_loop l then Ellipsis else RedirectTo (var_next_name l))
       (var_redirect_tombstone l) (var_redirect_dead_end l)
       (var_redirect_error l) (rev (var_redirection_list l))
       (var_routing_data l, var_plugin_data l, var_redirect_chain l, var_redirect_deprecations l)
     = (rd', p', chain', deps')"
    by (auto simp: complete_redirect_def t Let_def split: prod.splits)
  from walk_decompose [OF w] obtain es t' where d:
    "hops rd pt r es t'" "distinct (map fst es)" "set (map fst es) \<inter> {?fqcn} = {}"
    "loop_body rd pt ?fqcn p ({?fqcn} \<union> set (map fst es))
       ([(?fqcn, c, n, Some p, None)] @ es) t' = Break l"
    by blast
  from d(3) have notin: "?fqcn \<notin> set (map fst es)" by auto
  from d(4) have body: "loop_body rd pt ?fqcn p (insert ?fqcn (set (map fst es)))
       ((?fqcn, c, n, Some p, None) # es) t' = Break l"
    by simp
  show ?thesis
    by (rule that [OF t d(1,2) notin body pf])
qed

section \<open>Where a resolution writes\<close>

text \<open>
  The loop over a cycle and the rewrite after the walk store records only through the
  owners of their elements.
\<close>

lemma cycle_for_frame:
  assumes "cycle_for fqcn err deps es (rd, pdata, chain) = (rd', pdata', chain')"
    and "\<forall>ie \<in> set es. snd (snd (snd (snd (snd ie)))) \<noteq> Some a \<or> fst (snd (snd (snd ie))) \<noteq> m"
  shows "get_plugin rd' a m = get_plugin rd a m"
  using assms
proof (induction es arbitrary: rd pdata chain)
  case Nil
  then show ?case by simp
next
  case (Cons ie es)
  obtain index fq cn pn ppd owner where ie: "ie = (index, (fq, cn, pn, ppd, owner))"
    by (cases ie) auto
  from Cons.prems(2) have miss: "owner \<noteq> Some a \<or> pn \<noteq> m"
    and rest: "\<forall>ie \<in> set es.
      snd (snd (snd (snd (snd ie)))) \<noteq> Some a \<or> fst (snd (snd (snd ie))) \<noteq> m"
    by (simp_all add: ie)
  show ?case
  proof (cases ppd)
    case None
    with Cons.prems(1) have
      "cycle_for fqcn err deps es (rd, pdata, drop 1 (chain @ [fq])) = (rd', pdata', chain')"
      by (simp add: ie)
    from Cons.IH [OF this rest] show ?thesis .
  next
    case (Some p)
    define new where "new =
       \<lparr>action_plugin = action_plugin p, redirect = Ellipsis,
        redirect_chain = Some (chain @ [fq]),
        redirect_deprecations =
          tuple_or_none
            (map snd (filter (\<lambda>(idx, e). idx \<ge> index) deps)
             @ map snd (filter (\<lambda>(idx, e). idx < index) deps)),
        redirect_tombstone = False, redirect_dead_end = False, redirect_error = err,
        deprecation = deprecation p, tombstone = tombstone p\<rparr>"
    from Cons.prems(1) have run:
      "cycle_for fqcn err deps es
         (owner_assign rd owner pn new, if fq = fqcn then new else pdata, drop 1 (chain @ [fq]))
       = (rd', pdata', chain')"
      unfolding ie Some new_def by (simp only: cycle_for.simps Let_def option.case)
    from Cons.IH [OF run rest]
    have "get_plugin rd' a m = get_plugin (owner_assign rd owner pn new) a m" .
    also have "\<dots> = get_plugin rd a m"
      using miss by (rule owner_assign_miss)
    finally show ?thesis .
  qed
qed

text \<open>The cycle branch, with its loop spelled out.\<close>

lemma found_cycle_unfold:
  assumes "found_cycle rd fqcn pdata path next_name = Inr l"
    and "start_index_of next_name path = Some i"
  obtains rdc pdc chc where
    "cycle_for fqcn (Some ''Detected circular redirect'')
       (deprecations_w_index (enumerate 0 (drop i path))) (enumerate 0 (drop i path))
       (rd, pdata, map fst (drop i path)) = (rdc, pdc, chc)"
    "var_routing_data l = rdc" "var_plugin_data l = pdc"
    "var_redirection_list l = take i path" "var_is_loop l"
    "var_redirect_error l = Some ''Detected circular redirect''"
proof -
  obtain rdc pdc chc where run:
    "cycle_for fqcn (Some ''Detected circular redirect'')
       (deprecations_w_index (enumerate 0 (drop i path))) (enumerate 0 (drop i path))
       (rd, pdata, map fst (drop i path)) = (rdc, pdc, chc)"
    by (cases "cycle_for fqcn (Some ''Detected circular redirect'')
       (deprecations_w_index (enumerate 0 (drop i path))) (enumerate 0 (drop i path))
       (rd, pdata, map fst (drop i path))") auto
  from assms(1) have "var_routing_data l = rdc" "var_plugin_data l = pdc"
    "var_redirection_list l = take i path" "var_is_loop l"
    "var_redirect_error l = Some ''Detected circular redirect''"
    using run by (auto simp: found_cycle_def assms(2) Let_def)
  with run show ?thesis by (rule that)
qed

lemma enumerate_snd_mem:
  assumes "ie \<in> set (enumerate k xs)"
  shows "snd ie \<in> set xs"
  using assms by (metis in_set_zipE enumerate_eq_zip prod.collapse)

lemma loop_body_frame:
  assumes "loop_body rd pt fqcn pdata found path next_name = Break l"
    and "\<forall>e \<in> set path. snd (snd (snd (snd e))) \<noteq> Some a \<or> fst (snd (snd e)) \<noteq> m"
  shows "get_plugin (var_routing_data l) a m = get_plugin rd a m
     \<and> (\<forall>e \<in> set (var_redirection_list l).
           snd (snd (snd (snd e))) \<noteq> Some a \<or> fst (snd (snd e)) \<noteq> m)"
  using assms(1)
proof (cases rule: loop_body_Break)
  case cycle
  from cycle(2) obtain i where i: "start_index_of next_name path = Some i"
    by (auto simp: found_cycle_def split: option.splits)
  from cycle(2) i obtain rdc pdc chc where fc:
    "cycle_for fqcn (Some ''Detected circular redirect'')
       (deprecations_w_index (enumerate 0 (drop i path))) (enumerate 0 (drop i path))
       (rd, pdata, map fst (drop i path)) = (rdc, pdc, chc)"
    "var_routing_data l = rdc" "var_redirection_list l = take i path"
    by (rule found_cycle_unfold)
  have "\<forall>ie \<in> set (enumerate 0 (drop i path)).
      snd (snd (snd (snd (snd ie)))) \<noteq> Some a \<or> fst (snd (snd (snd ie))) \<noteq> m"
  proof
    fix ie assume "ie \<in> set (enumerate 0 (drop i path))"
    then have "snd ie \<in> set (drop i path)" by (rule enumerate_snd_mem)
    then have "snd ie \<in> set path" by (rule in_set_dropD)
    with assms(2) show "snd (snd (snd (snd (snd ie)))) \<noteq> Some a \<or> fst (snd (snd (snd ie))) \<noteq> m"
      by blast
  qed
  with fc(1) have "get_plugin rdc a m = get_plugin rd a m"
    by (rule cycle_for_frame)
  moreover have "\<forall>e \<in> set (take i path).
      snd (snd (snd (snd e))) \<noteq> Some a \<or> fst (snd (snd e)) \<noteq> m"
    using assms(2) by (blast dest: in_set_takeD)
  ultimately show ?thesis
    by (simp add: fc(2,3))
next
  case stop
  with assms(2) show ?thesis by simp
next
  case (append ns cn pn ppd)
  with assms(2) show ?thesis by simp
qed

text \<open>
  A resolution changes no place of the catalog that is not the place of a node of its
  path; the start node has no owner in the path.
\<close>

lemma complete_redirect_frame:
  assumes "loop_body rd pt fqcn p (insert fqcn (set (map fst es)))
             ((fqcn, c, n, Some p, None) # es) t = Break l"
    and "prefix_for fqcn redir tomb dead err (rev (var_redirection_list l))
           (var_routing_data l, var_plugin_data l, chain, deps) = (rd', p', chain', deps')"
    and "\<forall>e \<in> set es. snd (snd (snd (snd e))) \<noteq> Some a \<or> fst (snd (snd e)) \<noteq> m"
  shows "get_plugin rd' a m = get_plugin rd a m"
proof -
  have "\<forall>e \<in> set ((fqcn, c, n, Some p, None) # es).
      snd (snd (snd (snd e))) \<noteq> Some a \<or> fst (snd (snd e)) \<noteq> m"
    using assms(3) by simp
  with assms(1) have
    "get_plugin (var_routing_data l) a m = get_plugin rd a m"
    "\<forall>e \<in> set (rev (var_redirection_list l)).
        snd (snd (snd (snd e))) \<noteq> Some a \<or> fst (snd (snd e)) \<noteq> m"
    using loop_body_frame by simp_all
  moreover from assms(2) this(2) have "get_plugin rd' a m = get_plugin (var_routing_data l) a m"
    by (rule prefix_for_frame)
  ultimately show ?thesis by simp
qed

section \<open>What the cycle branch marks\<close>

lemma marked_at_owner_assign:
  assumes "marked_at rd0 rd a m"
    and "\<And>b. owner = Some b \<Longrightarrow> marked_rec rd0 (snd b) (fst b @ ''.'' @ pn) v"
  shows "marked_at rd0 (owner_assign rd owner pn v) a m"
  using assms by (auto simp: marked_at_def get_plugin_owner_assign)

lemma marked_at_set_plugin:
  assumes "marked_at rd0 rd a m" and "marked_rec rd0 (snd b) (fst b @ ''.'' @ k) v"
  shows "marked_at rd0 (set_plugin rd b k v) a m"
  using assms by (auto simp: marked_at_def get_plugin_set_plugin)

lemma elt_ok_owner_assign:
  assumes "elt_ok rd pt e"
  shows "elt_ok (owner_assign rd owner k v) pt e"
  using assms
  by (cases e) (auto simp: elt_ok_def get_plugin_owner_assign split: option.splits)

lemma map_eq_append_ConsD:
  assumes "map f xs = ys @ z # zs"
  obtains as e bs where "xs = as @ e # bs" "map f as = ys" "f e = z" "map f bs = zs"
proof -
  from assms obtain as rest where 1: "xs = as @ rest" "map f as = ys" "map f rest = z # zs"
    by (auto simp: map_eq_append_conv)
  from 1(3) obtain e bs where "rest = e # bs" "f e = z" "map f bs = zs"
    by (auto simp: map_eq_Cons_conv)
  with 1 show ?thesis by (intro that) auto
qed

text \<open>
  The loop over a cycle whose names are those of the cycle \<open>canon\<close> of \<open>rd0\<close>: every element
  gets the round trip from its own name.
\<close>

lemma cycle_for_marks:
  assumes "cycle_for fqcn err deps es (rd, pdata, chain) = (rd', pdata', chain')"
    and "err \<noteq> None"
    and "hops rd0 pt x canon x" and "distinct (map fst canon)"
    and "map fst canon = ys @ map (fst \<circ> snd) es"
    and "chain = map (fst \<circ> snd) es @ ys"
    and "\<forall>ie \<in> set es. elt_ok rd pt (snd ie) \<and> fst (snd (snd (snd (snd ie)))) \<noteq> None"
  shows "(\<forall>a m. marked_at rd0 rd a m \<longrightarrow> marked_at rd0 rd' a m)
     \<and> (\<forall>ie \<in> set es. snd (snd (snd (snd (snd ie)))) \<noteq> None
           \<longrightarrow> marked_at rd0 rd' (fst (snd (snd ie)), pt) (fst (snd (snd (snd ie)))))
     \<and> ((\<exists>ie \<in> set es. fst (snd ie) = fqcn) \<longrightarrow> marked_rec rd0 pt fqcn pdata')
     \<and> (pdata' = pdata \<or> marked_rec rd0 pt fqcn pdata')"
  using assms(1,5,6,7)
proof (induction es arbitrary: rd pdata chain ys)
  case Nil
  then show ?case by simp
next
  case (Cons ie es)
  obtain index fq cn pn ppd owner where ie: "ie = (index, (fq, cn, pn, ppd, owner))"
    by (cases ie) auto
  from Cons.prems(4) obtain p where p: "ppd = Some p"
    by (auto simp: ie)
  from Cons.prems(4) have ok: "elt_ok rd pt (fq, cn, pn, ppd, owner)"
    by (simp add: ie)
  then have fq: "fq = cn @ ''.'' @ pn"
    by (simp add: elt_ok_def)
  from Cons.prems(3) have chain: "chain = fq # map (fst \<circ> snd) es @ ys"
    by (simp add: ie)
  from Cons.prems(2) have names: "map fst canon = ys @ fq # map (fst \<circ> snd) es"
    by (simp add: ie)
  have names': "map fst canon = (ys @ [fq]) @ map (fst \<circ> snd) es"
    by (simp add: names)
  have tail: "drop 1 (chain @ [fq]) = map (fst \<circ> snd) es @ (ys @ [fq])"
    by (simp add: chain)
  from names obtain as e bs where canon: "canon = as @ e # bs" "map fst as = ys" "fst e = fq"
    "map fst bs = map (fst \<circ> snd) es"
    by (rule map_eq_append_ConsD)
  have "hops rd0 pt (fst e) (e # bs @ as) (fst e)"
    using assms(3) unfolding canon(1) by (rule hops_rotate)
  moreover have "distinct (map fst (e # bs @ as))"
    using assms(4) by (auto simp: canon(1))
  moreover have "chain @ [fq] = map fst (e # bs @ as) @ [fq]"
    by (simp add: chain canon(2-4))
  ultimately have trip: "round_trip rd0 pt fq (chain @ [fq])"
    unfolding round_trip_def canon(3) by blast
  define new where "new =
     \<lparr>action_plugin = action_plugin p, redirect = Ellipsis,
      redirect_chain = Some (chain @ [fq]),
      redirect_deprecations =
        tuple_or_none
          (map snd (filter (\<lambda>(idx, e). idx \<ge> index) deps)
           @ map snd (filter (\<lambda>(idx, e). idx < index) deps)),
      redirect_tombstone = False, redirect_dead_end = False, redirect_error = err,
      deprecation = deprecation p, tombstone = tombstone p\<rparr>"
  define rd1 where "rd1 = owner_assign rd owner pn new"
  have new: "marked_rec rd0 pt fq new"
    using assms(2) trip by (simp add: marked_rec_def new_def)
  have own: "marked_rec rd0 (snd b) (fst b @ ''.'' @ pn) new" if "owner = Some b" for b
    using that ok new by (auto simp: elt_ok_def)
  from Cons.prems(1) have run:
    "cycle_for fqcn err deps es (rd1, if fq = fqcn then new else pdata, drop 1 (chain @ [fq]))
     = (rd', pdata', chain')"
    unfolding ie p new_def rd1_def by (simp only: cycle_for.simps Let_def option.case)
  have oks: "\<forall>ie \<in> set es. elt_ok rd1 pt (snd ie) \<and> fst (snd (snd (snd (snd ie)))) \<noteq> None"
    using Cons.prems(4) unfolding rd1_def by (auto intro: elt_ok_owner_assign)
  from Cons.IH [OF run names' tail oks] have ih:
    "\<And>a m. marked_at rd0 rd1 a m \<Longrightarrow> marked_at rd0 rd' a m"
    "\<forall>ie \<in> set es. snd (snd (snd (snd (snd ie)))) \<noteq> None
        \<longrightarrow> marked_at rd0 rd' (fst (snd (snd ie)), pt) (fst (snd (snd (snd ie))))"
    "(\<exists>ie \<in> set es. fst (snd ie) = fqcn) \<longrightarrow> marked_rec rd0 pt fqcn pdata'"
    "pdata' = (if fq = fqcn then new else pdata) \<or> marked_rec rd0 pt fqcn pdata'"
    by blast+
  have keep: "marked_at rd0 rd' a m" if "marked_at rd0 rd a m" for a m
    using that own unfolding rd1_def [symmetric]
    by (intro ih(1)) (auto simp: rd1_def intro: marked_at_owner_assign)
  have this_one: "marked_at rd0 rd' (cn, pt) pn" if "owner \<noteq> None"
  proof -
    from that ok have o: "owner = Some (cn, pt)" "get_plugin rd (cn, pt) pn \<noteq> None"
      by (auto simp: elt_ok_def)
    then have "get_plugin rd1 (cn, pt) pn = Some new"
      unfolding rd1_def by (simp add: owner_assign_hit)
    with new fq have "marked_at rd0 rd1 (cn, pt) pn"
      by (simp add: marked_at_def)
    then show ?thesis by (rule ih(1))
  qed
  have same: "pdata' = pdata \<or> marked_rec rd0 pt fqcn pdata'"
    using ih(4) new by (auto split: if_splits)
  have start: "marked_rec rd0 pt fqcn pdata'" if "\<exists>ie \<in> set (ie # es). fst (snd ie) = fqcn"
  proof (cases "\<exists>ie \<in> set es. fst (snd ie) = fqcn")
    case True
    with ih(3) show ?thesis by simp
  next
    case False
    with that have "fq = fqcn"
      by (auto simp: ie)
    with ih(4) new show ?thesis by auto
  qed
  from keep this_one start same ih(2) show ?case
    by (auto simp: ie)
qed

section \<open>Bundle names and FQNs\<close>

lemma str_split_parts_free:
  assumes "str_split sep k s = parts" and "length parts \<le> k"
  shows "\<forall>p \<in> set parts. sep \<notin> set p"
  using assms
proof (induction sep k s arbitrary: parts rule: str_split.induct)
  case (1 sep s)
  then show ?case by simp
next
  case (2 sep n)
  then show ?case by auto
next
  case (3 sep n c cs)
  show ?case
  proof (cases "c = sep")
    case True
    with "3.prems" have parts: "parts = [] # str_split sep n cs"
      by simp
    with "3.prems"(2) have "length (str_split sep n cs) \<le> n"
      by simp
    with "3.IH"(1) [OF True refl] parts show ?thesis
      by simp
  next
    case False
    obtain q qs where q: "str_split sep (Suc n) cs = q # qs"
      using str_split_nonempty [of sep "Suc n" cs] by (cases "str_split sep (Suc n) cs") auto
    with False "3.prems" have parts: "parts = (c # q) # qs"
      by simp
    with "3.prems"(2) have "length (q # qs) \<le> Suc n"
      by simp
    with "3.IH"(2) [OF False q] have "\<forall>p \<in> set (q # qs). sep \<notin> set p"
      by blast
    with False parts show ?thesis
      by auto
  qed
qed

lemma str_split_free_prefix:
  assumes "sep \<notin> set a"
  shows "str_split sep (Suc k) (a @ sep # rest) = a # str_split sep k rest"
  using assms by (induction a) (auto split: list.splits)

text \<open>The FQN of a plugin of a two-part bundle splits into the bundle and the plugin.\<close>

lemma two_part_split:
  assumes "two_part c" and "str_split CHR ''.'' 2 (c @ ''.'' @ n) = [ns, cn, pn]"
  shows "c = ns @ ''.'' @ cn \<and> n = pn"
proof -
  from assms(1) obtain a b where ab: "str_split CHR ''.'' 2 c = [a, b]"
    by (auto simp: two_part_def split: list.splits)
  then have free: "CHR ''.'' \<notin> set a" "CHR ''.'' \<notin> set b"
    using str_split_parts_free [of "CHR ''.''" 2 c "[a, b]"] by simp_all
  from str_join_split [of "CHR ''.''" 2 c] ab have c: "c = a @ CHR ''.'' # b"
    by simp
  have "str_split CHR ''.'' (Suc (Suc 0)) (a @ CHR ''.'' # (b @ CHR ''.'' # n))
      = a # str_split CHR ''.'' (Suc 0) (b @ CHR ''.'' # n)"
    using free(1) by (rule str_split_free_prefix)
  also have "\<dots> = a # b # str_split CHR ''.'' 0 n"
    using str_split_free_prefix [OF free(2), of 0 n] by simp
  finally have "str_split CHR ''.'' 2 (c @ ''.'' @ n) = [a, b, n]"
    by (simp add: c numeral_2_eq_2)
  with assms(2) c show ?thesis
    by simp
qed

section \<open>A walk that meets a cycle goes round it\<close>

lemma walk_round:
  assumes act: "hops rd pt x act t" and can: "hops rd pt x can t'"
    and dc: "distinct (map fst can)"
    and brk: "loop_body rd pt fqcn pdata F path t = Break l"
    and out: "\<forall>m \<in> set can. fst m \<notin> F \<or> fst m \<in> set (map fst act)"
    and noback: "\<And>m more. act = can @ m # more \<Longrightarrow> fst m = t' \<Longrightarrow> False"
  shows "act = can \<and> t = t'"
proof (cases "length act \<le> length can")
  case True
  from hops_det [OF act can True] obtain more where more:
    "can = act @ more" "hops rd pt t more t'"
    by blast
  show ?thesis
  proof (cases more)
    case Nil
    with more show ?thesis by simp
  next
    case (Cons m more')
    with more(2) obtain r where pr: "plain_redirect rd pt t = Some (m, r)"
      by (auto split: option.splits)
    then have fm: "fst m = t" by (rule plain_redirect_fst)
    from dc have "fst m \<notin> set (map fst act)"
      unfolding more(1) Cons by auto
    moreover have "m \<in> set can"
      by (simp add: more(1) Cons)
    ultimately have "t \<notin> F"
      using out fm by blast
    with pr have "loop_body rd pt fqcn pdata F path t = Continue (insert t F) (path @ [m]) r"
      by (rule loop_body_plain)
    with brk show ?thesis by simp
  qed
next
  case False
  then have "length can \<le> length act" by simp
  from hops_det [OF can act this] obtain more where more:
    "act = can @ more" "hops rd pt t' more t"
    by blast
  from False more(1) obtain m more' where m: "more = m # more'"
    by (cases more) auto
  with more(2) obtain r where "plain_redirect rd pt t' = Some (m, r)"
    by (auto split: option.splits)
  then have "fst m = t'" by (rule plain_redirect_fst)
  with noback [of m more'] more(1) m show ?thesis
    by simp
qed

text \<open>The nodes of a path of plain redirects, and a cycle seen from one of its nodes.\<close>

lemma path_node:
  assumes "hops rd pt x cyc t" and "e \<in> set cyc"
  obtains cn pn pd r where
    "e = (cn @ ''.'' @ pn, cn, pn, Some pd, Some (cn, pt))"
    "get_plugin rd (cn, pt) pn = Some pd"
    "redirect pd = RedirectTo r" "redirect_error pd = None"
    "plain_redirect rd pt (cn @ ''.'' @ pn) = Some (e, r)"
proof -
  from hops_node_plain [OF assms] obtain r where r: "plain_redirect rd pt (fst e) = Some (e, r)"
    by blast
  then obtain ns cn pn pd where h:
    "str_split CHR ''.'' 2 (fst e) = [ns, cn, pn]"
    "get_plugin rd (ns @ ''.'' @ cn, pt) pn = Some pd"
    "redirect pd = RedirectTo r" "tombstone pd = None" "redirect_error pd = None"
    "\<not> redirect_tombstone pd" "\<not> redirect_dead_end pd"
    "e = (fst e, ns @ ''.'' @ cn, pn, Some pd, Some (ns @ ''.'' @ cn, pt))"
    by (rule plain_redirect_SomeD)
  have fq: "fst e = (ns @ ''.'' @ cn) @ ''.'' @ pn"
    using str_split_three [OF h(1)] by simp
  show ?thesis
    using h(8) h(2,3,5) r unfolding fq by (rule that)
qed

lemma cycle_rotation_at:
  assumes "hops rd pt x cyc x" and "distinct (map fst cyc)" and "e \<in> set cyc"
  obtains rest where "hops rd pt (fst e) (e # rest) (fst e)"
    "set (e # rest) = set cyc" "distinct (map fst (e # rest))"
proof -
  from assms(3) obtain as bs where cyc: "cyc = as @ e # bs"
    by (auto dest: split_list)
  from assms(1) have "hops rd pt (fst e) (e # bs @ as) (fst e)"
    unfolding cyc by (rule hops_rotate)
  moreover have "set (e # bs @ as) = set cyc"
    by (auto simp: cyc)
  moreover have "distinct (map fst (e # bs @ as))"
    using assms(2) by (auto simp: cyc)
  ultimately show ?thesis by (rule that)
qed

section \<open>One resolution and the nodes of a cycle\<close>

text \<open>
  In the lemmas of this section a resolution of the plugin \<open>n\<close> of the bundle \<open>c\<close> is given
  by its parts: the path \<open>es\<close> of the walk, the \<^verbatim>\<open>break\<close> at \<open>t\<close> and the rewrite of the
  remaining path, followed by the assignment of the returned record by the caller.
\<close>

lemma step_frame:
  assumes "loop_body rd pt' (c @ ''.'' @ n) p (insert (c @ ''.'' @ n) (set (map fst es)))
             ((c @ ''.'' @ n, c, n, Some p, None) # es) t = Break l"
    and "prefix_for (c @ ''.'' @ n) redir tomb dead err (rev (var_redirection_list l))
           (var_routing_data l, var_plugin_data l, chain, deps) = (rd1, p', chain', deps')"
    and "\<forall>e \<in> set es. snd (snd (snd (snd e))) \<noteq> Some a \<or> fst (snd (snd e)) \<noteq> m"
    and "(c, pt') \<noteq> a \<or> n \<noteq> m"
  shows "get_plugin (set_plugin rd1 (c, pt') n p') a m = get_plugin rd a m"
proof -
  have "get_plugin (set_plugin rd1 (c, pt') n p') a m = get_plugin rd1 a m"
    using assms(4) by (auto simp: get_plugin_set_plugin)
  also have "\<dots> = get_plugin rd a m"
    using assms(1-3) by (rule complete_redirect_frame)
  finally show ?thesis .
qed

text \<open>A place that is marked as a cycle is not written again.\<close>

lemma step_marked:
  assumes ma: "marked_at rd0 rd a m"
    and g: "get_plugin rd (c, pt') n = Some p" and nd: "\<not> already_done p"
    and h: "hops rd pt' r es t"
    and body: "loop_body rd pt' (c @ ''.'' @ n) p (insert (c @ ''.'' @ n) (set (map fst es)))
             ((c @ ''.'' @ n, c, n, Some p, None) # es) t = Break l"
    and pf: "prefix_for (c @ ''.'' @ n) redir tomb dead err (rev (var_redirection_list l))
           (var_routing_data l, var_plugin_data l, chain, deps) = (rd1, p', chain', deps')"
  shows "marked_at rd0 (set_plugin rd1 (c, pt') n p') a m"
proof -
  from ma obtain x where x: "get_plugin rd a m = Some x" "redirect x = Ellipsis"
    "redirect_error x \<noteq> None"
    by (auto simp: marked_at_def marked_rec_def)
  have miss: "\<forall>e \<in> set es. snd (snd (snd (snd e))) \<noteq> Some a \<or> fst (snd (snd e)) \<noteq> m"
  proof
    fix e assume "e \<in> set es"
    with h obtain cn pn pd r' where e:
      "e = (cn @ ''.'' @ pn, cn, pn, Some pd, Some (cn, pt'))"
      "get_plugin rd (cn, pt') pn = Some pd" "redirect pd = RedirectTo r'"
      "redirect_error pd = None"
      by (rule path_node)
    show "snd (snd (snd (snd e))) \<noteq> Some a \<or> fst (snd (snd e)) \<noteq> m"
    proof (rule ccontr)
      assume "\<not> ?thesis"
      then have "a = (cn, pt')" "m = pn"
        by (simp_all add: e(1))
      with x e(2,4) show False by simp
    qed
  qed
  have start: "(c, pt') \<noteq> a \<or> n \<noteq> m"
  proof (rule ccontr)
    assume "\<not> ?thesis"
    with g x have "redirect p = Ellipsis" by auto
    with nd show False by (simp add: already_done_def)
  qed
  from body pf miss start
  have "get_plugin (set_plugin rd1 (c, pt') n p') a m = get_plugin rd a m"
    by (rule step_frame)
  with ma show ?thesis
    by (simp add: marked_at_def)
qed

text \<open>A walk over plugins of another type, or one that meets no name of the cycle, writes none of its nodes.\<close>

lemma step_apart:
  assumes e: "e \<in> set cyc" and cyc: "hops rd pt x0 cyc x0"
    and apart: "pt' \<noteq> pt
       \<or> (c @ ''.'' @ n \<notin> set (map fst cyc) \<and> set (map fst es) \<inter> set (map fst cyc) = {})"
    and h: "hops rd pt' r es t"
    and body: "loop_body rd pt' (c @ ''.'' @ n) p (insert (c @ ''.'' @ n) (set (map fst es)))
             ((c @ ''.'' @ n, c, n, Some p, None) # es) t = Break l"
    and pf: "prefix_for (c @ ''.'' @ n) redir tomb dead err (rev (var_redirection_list l))
           (var_routing_data l, var_plugin_data l, chain, deps) = (rd1, p', chain', deps')"
  shows "node_record (set_plugin rd1 (c, pt') n p') pt e = node_record rd pt e"
proof -
  from cyc e obtain cn pn pd r' where n: "e = (cn @ ''.'' @ pn, cn, pn, Some pd, Some (cn, pt))"
    by (rule path_node)
  from e have fe: "cn @ ''.'' @ pn \<in> set (map fst cyc)"
    by (force simp: n)
  have miss: "\<forall>e' \<in> set es.
      snd (snd (snd (snd e'))) \<noteq> Some (cn, pt) \<or> fst (snd (snd e')) \<noteq> pn"
  proof
    fix e' assume e': "e' \<in> set es"
    with h obtain cn' pn' pd' r'' where n':
      "e' = (cn' @ ''.'' @ pn', cn', pn', Some pd', Some (cn', pt'))"
      by (rule path_node)
    show "snd (snd (snd (snd e'))) \<noteq> Some (cn, pt) \<or> fst (snd (snd e')) \<noteq> pn"
    proof (rule ccontr)
      assume "\<not> ?thesis"
      then have eq: "cn' = cn" "pt' = pt" "pn' = pn"
        by (simp_all add: n')
      with e' have "cn @ ''.'' @ pn \<in> set (map fst es)"
        by (force simp: n')
      with apart eq(2) fe show False by auto
    qed
  qed
  have start: "(c, pt') \<noteq> (cn, pt) \<or> n \<noteq> pn"
    using apart fe by auto
  from body pf miss start
  have "get_plugin (set_plugin rd1 (c, pt') n p') (cn, pt) pn = get_plugin rd (cn, pt) pn"
    by (rule step_frame)
  then show ?thesis
    by (simp add: node_record_def n)
qed

text \<open>The cycle branch at the path \<open>pre @ loop\<close>, where the next name is the first name of \<open>loop\<close>.\<close>

lemma found_cycle_marks:
  assumes fc: "found_cycle rd fqcn pdata (pre @ loop) next_name = Inr l"
    and idx: "start_index_of next_name (pre @ loop) = Some (length pre)"
    and ok: "\<forall>e \<in> set loop. elt_ok rd pt e \<and> fst (snd (snd (snd e))) \<noteq> None"
    and canon: "hops rd0 pt x canon x" "distinct (map fst canon)" "map fst canon = map fst loop"
  shows "var_redirection_list l = pre"
    and "\<forall>e \<in> set loop. snd (snd (snd (snd e))) \<noteq> None
           \<longrightarrow> marked_at rd0 (var_routing_data l) (fst (snd e), pt) (fst (snd (snd e)))"
    and "(\<exists>e \<in> set loop. fst e = fqcn) \<longrightarrow> marked_rec rd0 pt fqcn (var_plugin_data l)"
proof -
  let ?es = "enumerate 0 loop"
  from fc idx obtain rdc pdc chc where u:
    "cycle_for fqcn (Some ''Detected circular redirect'')
       (deprecations_w_index (enumerate 0 (drop (length pre) (pre @ loop))))
       (enumerate 0 (drop (length pre) (pre @ loop)))
       (rd, pdata, map fst (drop (length pre) (pre @ loop))) = (rdc, pdc, chc)"
    "var_routing_data l = rdc" "var_plugin_data l = pdc"
    "var_redirection_list l = take (length pre) (pre @ loop)"
    by (rule found_cycle_unfold)
  from u(1) have run: "cycle_for fqcn (Some ''Detected circular redirect'')
       (deprecations_w_index ?es) ?es (rd, pdata, map fst loop) = (rdc, pdc, chc)"
    by simp
  have snd_es: "map snd ?es = loop"
    by (rule map_snd_enumerate)
  have names: "map fst loop = map (fst \<circ> snd) ?es @ []"
    using snd_es by (metis append_Nil2 map_map)
  have names0: "map fst canon = [] @ map (fst \<circ> snd) ?es"
    using names canon(3) by simp
  have oks: "\<forall>ie \<in> set ?es. elt_ok rd pt (snd ie) \<and> fst (snd (snd (snd (snd ie)))) \<noteq> None"
    using ok by (auto dest: enumerate_snd_mem)
  have err: "Some ''Detected circular redirect'' \<noteq> None"
    by simp
  note m = cycle_for_marks [OF run err canon(1,2) names0 names oks]
  have "set (map snd ?es) = set loop"
    by (simp only: snd_es)
  then have img: "snd ` set ?es = set loop"
    by (simp only: set_map)
  have ex: "\<exists>ie \<in> set ?es. snd ie = e" if "e \<in> set loop" for e
    using that unfolding img [symmetric] by blast
  show "var_redirection_list l = pre"
    by (simp add: u(4))
  show "\<forall>e \<in> set loop. snd (snd (snd (snd e))) \<noteq> None
           \<longrightarrow> marked_at rd0 (var_routing_data l) (fst (snd e), pt) (fst (snd (snd e)))"
  proof (intro ballI impI)
    fix e assume e: "e \<in> set loop" "snd (snd (snd (snd e))) \<noteq> None"
    from ex [OF e(1)] obtain ie where ie: "ie \<in> set ?es" "snd ie = e" by blast
    with m e(2) show "marked_at rd0 (var_routing_data l) (fst (snd e), pt) (fst (snd (snd e)))"
      unfolding u(2) by blast
  qed
  show "(\<exists>e \<in> set loop. fst e = fqcn) \<longrightarrow> marked_rec rd0 pt fqcn (var_plugin_data l)"
  proof
    assume "\<exists>e \<in> set loop. fst e = fqcn"
    then obtain e where e: "e \<in> set loop" "fst e = fqcn" by blast
    from ex [OF e(1)] obtain ie where ie: "ie \<in> set ?es" "snd ie = e" by blast
    with e(2) have "\<exists>ie \<in> set ?es. fst (snd ie) = fqcn" by blast
    with m show "marked_rec rd0 pt fqcn (var_plugin_data l)"
      unfolding u(3) by blast
  qed
qed

lemma path_node_ok:
  assumes "hops rd pt x es t" and "e \<in> set es"
  shows "elt_ok rd pt e \<and> fst (snd (snd (snd e))) \<noteq> None \<and> snd (snd (snd (snd e))) \<noteq> None"
proof -
  from assms obtain cn pn pd r where
    "e = (cn @ ''.'' @ pn, cn, pn, Some pd, Some (cn, pt))"
    "get_plugin rd (cn, pt) pn = Some pd"
    by (rule path_node)
  then show ?thesis
    by (simp add: elt_ok_def)
qed

text \<open>The resolution of a node of the cycle goes round the cycle and marks all its nodes.\<close>

lemma step_start:
  assumes cyc0: "hops rd0 pt x0 cyc x0" and dist: "distinct (map fst cyc)"
    and U: "cycle_untouched rd0 rd pt cyc"
    and on: "c @ ''.'' @ n \<in> set (map fst cyc)"
    and tp: "two_part c"
    and g: "get_plugin rd (c, pt) n = Some p"
    and red: "redirect p = RedirectTo r"
    and h: "hops rd pt r es t" and ns: "c @ ''.'' @ n \<notin> set (map fst es)"
    and body: "loop_body rd pt (c @ ''.'' @ n) p (insert (c @ ''.'' @ n) (set (map fst es)))
             ((c @ ''.'' @ n, c, n, Some p, None) # es) t = Break l"
    and pf: "prefix_for (c @ ''.'' @ n) redir tomb dead err (rev (var_redirection_list l))
           (var_routing_data l, var_plugin_data l, chain, deps) = (rd1, p', chain', deps')"
    and od: "owner_dict rd1 (c, pt) \<noteq> None"
  shows "cycle_marked rd0 (set_plugin rd1 (c, pt) n p') pt cyc"
proof -
  let ?S = "c @ ''.'' @ n"
  let ?start = "(?S, c, n, Some p, None)"
  have hc: "hops rd pt x0 cyc x0"
    using cyc0 by (rule hops_cong) (use U in \<open>simp add: cycle_untouched_def\<close>)
  from on obtain e where e: "e \<in> set cyc" "fst e = ?S" by auto
  from hc e(1) obtain cn pn pd r' where n:
    "e = (cn @ ''.'' @ pn, cn, pn, Some pd, Some (cn, pt))"
    "get_plugin rd (cn, pt) pn = Some pd" "redirect pd = RedirectTo r'"
    "redirect_error pd = None" "plain_redirect rd pt (cn @ ''.'' @ pn) = Some (e, r')"
    by (rule path_node)
  from e(2) have S: "?S = cn @ ''.'' @ pn"
    by (simp add: n(1))
  from n(5) obtain ns' cn' pn' pd' where sp:
    "str_split CHR ''.'' 2 (cn @ ''.'' @ pn) = [ns', cn', pn']"
    "e = (cn @ ''.'' @ pn, ns' @ ''.'' @ cn', pn', Some pd', Some (ns' @ ''.'' @ cn', pt))"
    by (rule plain_redirect_SomeD)
  from sp(2) have loc: "cn = ns' @ ''.'' @ cn'" "pn = pn'"
    by (simp_all add: n(1))
  from two_part_split [OF tp sp(1) [folded S]] loc have place: "c = cn" "n = pn"
    by simp_all
  with g n(2,3) red have r: "r = r'"
    by simp
  from cyc0 dist e(1) obtain rest where rot0: "hops rd0 pt (fst e) (e # rest) (fst e)"
    "set (e # rest) = set cyc" "distinct (map fst (e # rest))"
    by (rule cycle_rotation_at)
  have "hops rd pt (fst e) (e # rest) (fst e)"
    using rot0(1) by (rule hops_cong) (use U rot0(2) in \<open>simp add: cycle_untouched_def\<close>)
  note rot = this rot0(2,3)
  from rot(1) n(5) have can: "hops rd pt r rest ?S"
    by (simp add: n(1) r place)
  have "es = rest \<and> t = ?S"
    using h can _ body
  proof (rule walk_round)
    show "distinct (map fst rest)"
      using rot(3) by simp
    show "\<forall>m \<in> set rest. fst m \<notin> insert ?S (set (map fst es)) \<or> fst m \<in> set (map fst es)"
    proof
      fix m assume "m \<in> set rest"
      then have "fst m \<in> set (map fst rest)" by simp
      moreover from rot(3) have "fst e \<notin> set (map fst rest)" by simp
      ultimately have "fst m \<noteq> ?S"
        unfolding e(2) by metis
      then show "fst m \<notin> insert ?S (set (map fst es)) \<or> fst m \<in> set (map fst es)"
        by blast
    qed
    show False if "es = rest @ m # more" "fst m = ?S" for m more
      using that ns by auto
  qed
  then have es: "es = rest" and t: "t = ?S"
    by simp_all
  from body have fc: "found_cycle rd ?S p ([] @ ?start # es) ?S = Inr l"
    unfolding t by (auto simp: loop_body_def split: sum.splits)
  have idx: "start_index_of ?S ([] @ ?start # es) = Some (length ([] :: elt list))"
    by simp
  have ok: "\<forall>e \<in> set (?start # es). elt_ok rd pt e \<and> fst (snd (snd (snd e))) \<noteq> None"
    using path_node_ok [OF h] by (auto simp: elt_ok_def)
  have "map fst (e # rest) = map fst (?start # es)"
    by (simp add: es e(2))
  note m = found_cycle_marks [OF fc idx ok rot0(1,3) this]
  from pf have out: "rd1 = var_routing_data l" "p' = var_plugin_data l"
    by (simp_all add: m(1))
  from m(3) have p': "marked_rec rd0 pt ?S p'"
    by (simp add: out)
  show ?thesis
    unfolding cycle_marked_def
  proof
    fix e' assume "e' \<in> set cyc"
    then have "e' = e \<or> e' \<in> set es"
      using rot(2) es by auto
    then show "marked_at rd0 (set_plugin rd1 (c, pt) n p') (fst (snd e'), pt) (fst (snd (snd e')))"
    proof
      assume "e' = e"
      then have "fst (snd e') = c" "fst (snd (snd e')) = n"
        by (simp_all add: n(1) place)
      with od p' show ?thesis
        by (simp add: marked_at_def get_plugin_set_plugin)
    next
      assume e': "e' \<in> set es"
      with path_node_ok [OF h] have "snd (snd (snd (snd e'))) \<noteq> None"
        by blast
      with m(2) e' have "marked_at rd0 rd1 (fst (snd e'), pt) (fst (snd (snd e')))"
        by (simp add: out)
      moreover have "marked_rec rd0 (snd (c, pt)) (fst (c, pt) @ ''.'' @ n) p'"
        using p' by simp
      ultimately show ?thesis
        by (rule marked_at_set_plugin)
    qed
  qed
qed

text \<open>A walk from outside that meets the cycle goes round it and marks all its nodes.\<close>

lemma step_enter:
  assumes cyc0: "hops rd0 pt x0 cyc x0" and dist: "distinct (map fst cyc)"
    and U: "cycle_untouched rd0 rd pt cyc"
    and off: "c @ ''.'' @ n \<notin> set (map fst cyc)"
    and meet: "set (map fst es) \<inter> set (map fst cyc) \<noteq> {}"
    and h: "hops rd pt r es t" and des: "distinct (map fst es)"
    and body: "loop_body rd pt (c @ ''.'' @ n) p (insert (c @ ''.'' @ n) (set (map fst es)))
             ((c @ ''.'' @ n, c, n, Some p, None) # es) t = Break l"
    and pf: "prefix_for (c @ ''.'' @ n) redir tomb dead err (rev (var_redirection_list l))
           (var_routing_data l, var_plugin_data l, chain, deps) = (rd1, p', chain', deps')"
  shows "cycle_marked rd0 (set_plugin rd1 (c, pt) n p') pt cyc"
proof -
  let ?S = "c @ ''.'' @ n"
  let ?start = "(?S, c, n, Some p, None)"
  have hc: "hops rd pt x0 cyc x0"
    using cyc0 by (rule hops_cong) (use U in \<open>simp add: cycle_untouched_def\<close>)
  from meet have "\<exists>e' \<in> set es. fst e' \<in> set (map fst cyc)"
    by auto
  then obtain pre e' post where sp: "es = pre @ e' # post" "fst e' \<in> set (map fst cyc)"
    "\<forall>y \<in> set pre. fst y \<notin> set (map fst cyc)"
    using split_list_first_prop [of es "\<lambda>e'. fst e' \<in> set (map fst cyc)"] by blast
  from sp(2) obtain e where e: "e \<in> set cyc" "fst e = fst e'" by auto
  from cyc0 dist e(1) obtain rest where rot0: "hops rd0 pt (fst e) (e # rest) (fst e)"
    "set (e # rest) = set cyc" "distinct (map fst (e # rest))"
    by (rule cycle_rotation_at)
  have "hops rd pt (fst e) (e # rest) (fst e)"
    using rot0(1) by (rule hops_cong) (use U rot0(2) in \<open>simp add: cycle_untouched_def\<close>)
  note rot = this rot0(2,3)
  from h have act: "hops rd pt (fst e) (e' # post) t"
    unfolding sp(1) e(2) by (rule hops_split)
  have "e' # post = e # rest \<and> t = fst e"
    using act rot(1) rot(3) body
  proof (rule walk_round)
    show "\<forall>m \<in> set (e # rest).
        fst m \<notin> insert ?S (set (map fst es)) \<or> fst m \<in> set (map fst (e' # post))"
    proof
      fix m assume "m \<in> set (e # rest)"
      then have fm: "fst m \<in> set (map fst cyc)"
        unfolding rot(2) by simp
      with off have 1: "fst m \<noteq> ?S"
        by metis
      have 2: "fst m \<notin> set (map fst pre)"
      proof
        assume "fst m \<in> set (map fst pre)"
        then obtain y where "y \<in> set pre" "fst y = fst m" by auto
        with sp(3) fm show False by metis
      qed
      from 1 2 show "fst m \<notin> insert ?S (set (map fst es)) \<or> fst m \<in> set (map fst (e' # post))"
        by (auto simp: sp(1))
    qed
    show False if "e' # post = (e # rest) @ m # more" "fst m = fst e" for m more
    proof -
      from that(1) have "post = rest @ m # more" by simp
      with des that(2) e(2) show False
        by (simp add: sp(1))
    qed
  qed
  then have eq: "e' = e" "post = rest" and t: "t = fst e"
    by simp_all
  have path: "?start # es = (?start # pre) @ e # rest"
    by (simp add: sp(1) eq)
  have "fst e \<in> insert ?S (set (map fst es))"
    by (simp add: sp(1) eq)
  with body have fc: "found_cycle rd ?S p ((?start # pre) @ e # rest) (fst e) = Inr l"
    unfolding t path by (auto simp: loop_body_def split: sum.splits)
  have fe: "fst e \<in> set (map fst cyc)"
    using e(1) by force
  with off have "fst e \<noteq> ?S"
    by metis
  moreover have "fst e \<notin> set (map fst pre)"
  proof
    assume "fst e \<in> set (map fst pre)"
    then obtain y where "y \<in> set pre" "fst y = fst e" by auto
    with sp(3) fe show False by metis
  qed
  ultimately have "fst e \<notin> set (map fst (?start # pre))"
    by simp
  then have idx: "start_index_of (fst e) ((?start # pre) @ e # rest) = Some (length (?start # pre))"
    by (rule start_index_of_append) simp
  have ok: "\<forall>e \<in> set (e # rest). elt_ok rd pt e \<and> fst (snd (snd (snd e))) \<noteq> None"
    using path_node_ok [OF hc] unfolding rot(2) by blast
  note m = found_cycle_marks [OF fc idx ok rot0(1,3) refl]
  show ?thesis
    unfolding cycle_marked_def
  proof
    fix ej assume ej: "ej \<in> set cyc"
    with hc obtain cn pn pd r' where n: "ej = (cn @ ''.'' @ pn, cn, pn, Some pd, Some (cn, pt))"
      by (rule path_node)
    from ej have fj: "cn @ ''.'' @ pn \<in> set (map fst cyc)"
      by (force simp: n)
    from ej have "ej \<in> set (e # rest)"
      by (simp only: rot(2))
    moreover have "snd (snd (snd (snd ej))) \<noteq> None"
      by (simp add: n)
    ultimately have "marked_at rd0 (var_routing_data l) (fst (snd ej), pt) (fst (snd (snd ej)))"
      using m(2) by blast
    then have 1: "marked_at rd0 (var_routing_data l) (cn, pt) pn"
      by (simp add: n)
    have miss: "\<forall>y \<in> set (rev (var_redirection_list l)).
        snd (snd (snd (snd y))) \<noteq> Some (cn, pt) \<or> fst (snd (snd y)) \<noteq> pn"
      unfolding m(1)
    proof
      fix y assume "y \<in> set (rev (?start # pre))"
      then have "y = ?start \<or> y \<in> set pre" by auto
      then show "snd (snd (snd (snd y))) \<noteq> Some (cn, pt) \<or> fst (snd (snd y)) \<noteq> pn"
      proof
        assume "y = ?start"
        then show ?thesis by simp
      next
        assume y: "y \<in> set pre"
        then have "y \<in> set es" by (simp add: sp(1))
        with h obtain cn' pn' pd' r'' where n':
          "y = (cn' @ ''.'' @ pn', cn', pn', Some pd', Some (cn', pt))"
          by (rule path_node)
        from y sp(3) have "fst y \<notin> set (map fst cyc)"
          by blast
        then have out: "cn' @ ''.'' @ pn' \<notin> set (map fst cyc)"
          by (simp add: n')
        show ?thesis
        proof (rule ccontr)
          assume "\<not> ?thesis"
          then have "cn' = cn" "pn' = pn"
            by (simp_all add: n')
          with out fj show False by simp
        qed
      qed
    qed
    from pf miss have 2: "get_plugin rd1 (cn, pt) pn = get_plugin (var_routing_data l) (cn, pt) pn"
      by (rule prefix_for_frame)
    have "(c, pt) \<noteq> (cn, pt) \<or> n \<noteq> pn"
      using off fj by auto
    then have "get_plugin (set_plugin rd1 (c, pt) n p') (cn, pt) pn = get_plugin rd1 (cn, pt) pn"
      by (auto simp: get_plugin_set_plugin)
    with 1 2 show "marked_at rd0 (set_plugin rd1 (c, pt) n p') (fst (snd ej), pt) (fst (snd (snd ej)))"
      by (simp add: marked_at_def n)
  qed
qed

text \<open>
  One step of \<^const>\<open>complete_names\<close>: the nodes of a cycle stay as they were, or the step
  marks them all, and once marked they stay so.
\<close>

lemma cycle_step:
  assumes cyc: "hops rd0 pt x0 cyc x0" and dist: "distinct (map fst cyc)"
    and J: "cycle_kept rd0 rd pt cyc"
    and g: "get_plugin rd (c, pt') n = Some p"
    and run: "complete_redirect p rd c pt' n = Inr (p', rd1)"
    and tp: "two_part c"
  shows "cycle_kept rd0 (set_plugin rd1 (c, pt') n p') pt cyc"
proof (cases "already_done p")
  case True
  with run have "p' = p" "rd1 = rd"
    by (simp_all add: complete_redirect_done)
  with g J show ?thesis
    by (simp add: set_plugin_same)
next
  case False
  let ?S = "c @ ''.'' @ n"
  let ?rd2 = "set_plugin rd1 (c, pt') n p'"
  from run False obtain r es t l chain' deps' where d:
    "redirect p = RedirectTo r" "redirect_chain p = None"
    "hops rd pt' r es t" "distinct (map fst es)" "?S \<notin> set (map fst es)"
    "loop_body rd pt' ?S p (insert ?S (set (map fst es))) ((?S, c, n, Some p, None) # es) t
       = Break l"
    "prefix_for ?S (if var_is_loop l then Ellipsis else RedirectTo (var_next_name l))
       (var_redirect_tombstone l) (var_redirect_dead_end l) (var_redirect_error l)
       (rev (var_redirection_list l))
       (var_routing_data l, var_plugin_data l, var_redirect_chain l, var_redirect_deprecations l)
     = (rd1, p', chain', deps')"
    by (rule complete_redirect_decompose)
  from J show ?thesis
    unfolding cycle_kept_def
  proof
    assume M: "cycle_marked rd0 rd pt cyc"
    have "cycle_marked rd0 ?rd2 pt cyc"
      unfolding cycle_marked_def
    proof
      fix e assume "e \<in> set cyc"
      with M have "marked_at rd0 rd (fst (snd e), pt) (fst (snd (snd e)))"
        by (simp add: cycle_marked_def)
      then show "marked_at rd0 ?rd2 (fst (snd e), pt) (fst (snd (snd e)))"
        using g False d(3,6,7) by (rule step_marked)
    qed
    then show "cycle_untouched rd0 ?rd2 pt cyc \<or> cycle_marked rd0 ?rd2 pt cyc" ..
  next
    assume U: "cycle_untouched rd0 rd pt cyc"
    have hc: "hops rd pt x0 cyc x0"
      using cyc by (rule hops_cong) (use U in \<open>simp add: cycle_untouched_def\<close>)
    consider (apart) "pt' \<noteq> pt
        \<or> (?S \<notin> set (map fst cyc) \<and> set (map fst es) \<inter> set (map fst cyc) = {})"
      | (start) "pt' = pt" "?S \<in> set (map fst cyc)"
      | (enter) "pt' = pt" "?S \<notin> set (map fst cyc)"
          "set (map fst es) \<inter> set (map fst cyc) \<noteq> {}"
      by blast
    then show "cycle_untouched rd0 ?rd2 pt cyc \<or> cycle_marked rd0 ?rd2 pt cyc"
    proof cases
      case apart
      have "cycle_untouched rd0 ?rd2 pt cyc"
        unfolding cycle_untouched_def
      proof
        fix e assume e: "e \<in> set cyc"
        from e hc apart d(3,6,7) have "node_record ?rd2 pt e = node_record rd pt e"
          by (rule step_apart)
        with U e show "node_record ?rd2 pt e = node_record rd0 pt e"
          by (simp add: cycle_untouched_def)
      qed
      then show ?thesis ..
    next
      case start
      from complete_redirect_rewritten [OF run] have "rewritten rd rd1"
        by simp
      moreover from g have "owner_dict rd (c, pt') \<noteq> None"
        by (auto dest: get_plugin_SomeD)
      ultimately have od: "owner_dict rd1 (c, pt) \<noteq> None"
        unfolding start(1) by (simp add: rewritten_owner_dict)
      from cyc dist U start(2) tp g [unfolded start(1)] d(1) d(3) [unfolded start(1)] d(5)
        d(6) [unfolded start(1)] d(7) od
      have "cycle_marked rd0 (set_plugin rd1 (c, pt) n p') pt cyc"
        by (rule step_start)
      then show ?thesis
        unfolding start(1) ..
    next
      case enter
      from cyc dist U enter(2,3) d(3) [unfolded enter(1)] d(4) d(6) [unfolded enter(1)] d(7)
      have "cycle_marked rd0 (set_plugin rd1 (c, pt) n p') pt cyc"
        by (rule step_enter)
      then show ?thesis
        unfolding enter(1) ..
    qed
  qed
qed

lemma complete_names_cycle:
  assumes "hops rd0 pt x0 cyc x0" and "distinct (map fst cyc)"
    and "complete_names rd c pt' names = Inr rd'"
    and "cycle_kept rd0 rd pt cyc" and "two_part c"
  shows "cycle_kept rd0 rd' pt cyc"
  using assms(3,4)
proof (induction names arbitrary: rd)
  case Nil
  then show ?case by simp
next
  case (Cons n names)
  from Cons.prems(1) obtain p p' rd1 where h:
    "get_plugin rd (c, pt') n = Some p"
    "complete_redirect p rd c pt' n = Inr (p', rd1)"
    "complete_names (set_plugin rd1 (c, pt') n p') c pt' names = Inr rd'"
    by (auto split: option.splits sum.splits)
  from assms(1,2) Cons.prems(2) h(1,2) assms(5)
  have "cycle_kept rd0 (set_plugin rd1 (c, pt') n p') pt cyc"
    by (rule cycle_step)
  with h(3) show ?case
    by (rule Cons.IH)
qed

lemma complete_types_cycle:
  assumes "hops rd0 pt x0 cyc x0" and "distinct (map fst cyc)"
    and "complete_types rd c types = Inr rd'"
    and "cycle_kept rd0 rd pt cyc" and "two_part c"
  shows "cycle_kept rd0 rd' pt cyc"
  using assms(3,4)
proof (induction types arbitrary: rd)
  case Nil
  then show ?case by simp
next
  case (Cons pt' types)
  from Cons.prems(1) obtain d rd1 where h:
    "owner_dict rd (c, pt') = Some d"
    "complete_names rd c pt' (map fst d) = Inr rd1"
    "complete_types rd1 c types = Inr rd'"
    by (auto split: option.splits sum.splits)
  from assms(1,2) h(2) Cons.prems(2) assms(5) have "cycle_kept rd0 rd1 pt cyc"
    by (rule complete_names_cycle)
  with h(3) show ?case
    by (rule Cons.IH)
qed

lemma complete_collections_cycle:
  assumes "hops rd0 pt x0 cyc x0" and "distinct (map fst cyc)"
    and "complete_collections rd names = Inr rd'"
    and "cycle_kept rd0 rd pt cyc" and "\<forall>c \<in> set names. two_part c"
  shows "cycle_kept rd0 rd' pt cyc"
  using assms(3,4,5)
proof (induction names arbitrary: rd)
  case Nil
  then show ?case by simp
next
  case (Cons c names)
  from Cons.prems(1) obtain rd1 where h:
    "complete_redirects_for_collection rd c = Inr rd1"
    "complete_collections rd1 names = Inr rd'"
    by (auto split: sum.splits)
  from Cons.prems(3) have tp: "two_part c" "\<forall>c \<in> set names. two_part c"
    by simp_all
  have "cycle_kept rd0 rd1 pt cyc"
  proof (cases "map_of rd c")
    case None
    with h(1) Cons.prems(2) show ?thesis
      by (simp add: complete_redirects_for_collection_def)
  next
    case (Some cr)
    with h(1) have "complete_types rd c (map fst (plugin_data cr)) = Inr rd1"
      by (simp add: complete_redirects_for_collection_def)
    with assms(1,2) show ?thesis
      using Cons.prems(2) tp(1) by (rule complete_types_cycle)
  qed
  with h(2) show ?case
    using tp(2) by (rule Cons.IH)
qed

text \<open>
  A plugin on a cycle of plain redirects is marked as a cycle by \<^verbatim>\<open>complete_redirects\<close>,
  and its chain is a round trip from its own FQN.
\<close>

lemma on_cycle_marked:
  assumes run: "complete_redirects rd = Inr rd'"
    and g: "get_plugin rd (c, pt) n = Some p"
    and nd: "\<not> already_done p"
    and cyc: "hops rd pt (c @ ''.'' @ n) cyc (c @ ''.'' @ n)" "cyc \<noteq> []"
    and dist: "distinct (map fst cyc)"
    and tp: "\<forall>b \<in> set (map fst rd). two_part b"
  shows "marked_at rd rd' (c, pt) n"
proof -
  from cyc(2) obtain e rest where c0: "cyc = e # rest"
    by (cases cyc) auto
  then have e: "e \<in> set cyc" by simp
  from cyc(1) obtain r where pr: "plain_redirect rd pt (c @ ''.'' @ n) = Some (e, r)"
    unfolding c0 by (auto split: option.splits)
  then obtain ns cn pn pd where sp:
    "str_split CHR ''.'' 2 (c @ ''.'' @ n) = [ns, cn, pn]"
    "e = (c @ ''.'' @ n, ns @ ''.'' @ cn, pn, Some pd, Some (ns @ ''.'' @ cn, pt))"
    by (rule plain_redirect_SomeD)
  from g have "map_of rd c \<noteq> None"
    by (auto simp: get_plugin_def owner_dict_def split: option.splits)
  then have "c \<in> set (map fst rd)"
    by (simp add: map_of_eq_None_iff)
  with tp have "two_part c" by blast
  from two_part_split [OF this sp(1)] have place: "fst (snd e) = c" "fst (snd (snd e)) = n"
    by (simp_all add: sp(2))
  then have rec: "node_record rdx pt e = get_plugin rdx (c, pt) n" for rdx
    by (cases e) (simp add: node_record_def)
  have "cycle_kept rd rd pt cyc"
    by (simp add: cycle_kept_def cycle_untouched_def)
  with cyc(1) dist run have "cycle_kept rd rd' pt cyc"
    unfolding complete_redirects_def using tp by (rule complete_collections_cycle)
  then show ?thesis
    unfolding cycle_kept_def
  proof
    assume "cycle_untouched rd rd' pt cyc"
    with e have "node_record rd' pt e = node_record rd pt e"
      unfolding cycle_untouched_def by blast
    then have "get_plugin rd' (c, pt) n = Some p"
      by (simp only: rec g)
    moreover from complete_redirects_rewritten [OF run] have "all_done rd'"
      by simp
    ultimately have "already_done p"
      by (auto simp: all_done_def)
    with nd show ?thesis by simp
  next
    assume "cycle_marked rd rd' pt cyc"
    with e have "marked_at rd rd' (fst (snd e), pt) (fst (snd (snd e)))"
      unfolding cycle_marked_def by blast
    then show ?thesis
      by (simp only: place)
  qed
qed

text \<open>
  The condition on the bundle names cannot be dropped: \<^verbatim>\<open>_complete_redirect\<close> finds a
  plugin by splitting its FQN at the first two dots, so the plugin \<^verbatim>\<open>d\<close> of a bundle
  \<^verbatim>\<open>a.b.c\<close> has the FQN of the plugin \<^verbatim>\<open>c.d\<close> of the bundle \<^verbatim>\<open>a.b\<close>. Here \<^verbatim>\<open>a.b.c.d\<close> and
  \<^verbatim>\<open>a.b.x\<close> of the bundle \<^verbatim>\<open>a.b\<close> form a cycle, the walk from \<^verbatim>\<open>d\<close> of \<^verbatim>\<open>a.b.c\<close> takes its own
  name for the entry of the cycle, and the chain of \<^verbatim>\<open>c.d\<close> does not end with its FQN.
\<close>

lemma bundle_names_matter:
  "hops three_part_bundle ''module'' ''a.b.c.d''
     [(''a.b.c.d'', ''a.b'', ''c.d'', Some (redirecting ''a.b.x''), Some (''a.b'', ''module'')),
      (''a.b.x'', ''a.b'', ''x'', Some (redirecting ''a.b.c.d''), Some (''a.b'', ''module''))]
     ''a.b.c.d''
   \<and> (case complete_redirects three_part_bundle of
        Inl e \<Rightarrow> None
      | Inr rd' \<Rightarrow> map_option redirect_chain (get_plugin rd' (''a.b'', ''module'') ''c.d''))
     = Some (Some [''a.b.c.d'', ''a.b.x'', ''a.b.c.d'', ''a.b.x''])"
  by code_simp

section \<open>The shape of a resolved record\<close>

text \<open>
  Claim C2 fails as stated. The plugin \<^verbatim>\<open>loop_2\<close> redirects to the self-loop \<^verbatim>\<open>loop_3\<close>:
  after resolution it is marked as a cycle, and its chain
  \<^verbatim>\<open>(loop_2, loop_3, loop_3)\<close> holds its own FQN once. The plugin \<^verbatim>\<open>dead_chain_2\<close>
  redirects to the tombstoned \<^verbatim>\<open>dead_chain_3\<close>: its \<^verbatim>\<open>redirect\<close> is \<^verbatim>\<open>dead_chain_3\<close>,
  which is not an element of its chain \<^verbatim>\<open>(dead_chain_2,)\<close>.
\<close>

theorem resolved_shape_counterexample:
  "map_option redirect (get_plugin pre_loop (''foo.bar'', ''module'') ''loop_2'')
     = Some (RedirectTo ''foo.bar.loop_3'')
   \<and> map_option redirect (resolved_record pre_loop ''loop_2'') = Some Ellipsis
   \<and> map_option redirect_chain (resolved_record pre_loop ''loop_2'')
       = Some (Some [''foo.bar.loop_2'', ''foo.bar.loop_3'', ''foo.bar.loop_3''])
   \<and> map_option (claimed_shape ''foo.bar.loop_2'') (resolved_record pre_loop ''loop_2'')
       = Some False
   \<and> map_option redirect (get_plugin dead_chain (''foo.bar'', ''module'') ''dead_chain_2'')
       = Some (RedirectTo ''foo.bar.dead_chain_3'')
   \<and> map_option redirect (resolved_record dead_chain ''dead_chain_2'')
       = Some (RedirectTo ''foo.bar.dead_chain_3'')
   \<and> map_option redirect_chain (resolved_record dead_chain ''dead_chain_2'')
       = Some (Some [''foo.bar.dead_chain_2''])
   \<and> map_option (claimed_shape ''foo.bar.dead_chain_2'') (resolved_record dead_chain ''dead_chain_2'')
       = Some False"
  by code_simp

text \<open>
  Claim C2, amended. After \<^verbatim>\<open>complete_redirects\<close>, every plugin whose redirect was a
  string and whose chain was not yet set has a \<^verbatim>\<open>redirect\<close> (a string or the cycle
  marker) and a non-empty \<^verbatim>\<open>redirect_chain\<close> that starts with its own FQN. When the
  outcome is clean (no \<^verbatim>\<open>redirect_error\<close>, neither \<^verbatim>\<open>redirect_tombstone\<close> nor
  \<^verbatim>\<open>redirect_dead_end\<close>), \<^verbatim>\<open>redirect\<close> is the last element of the chain. When the
  plugin is marked as a cycle, in a catalog whose records that were marked as cycles
  before the call carry a chain that ends in a cycle, the chain goes on after the own
  FQN and ends in a cycle: its last element is the own FQN, which the chain then holds
  twice, or it is an FQN that also occurs earlier in the chain, after the first element.
  And when the plugin lies on a cycle \<open>cyc\<close> of plain redirects over different plugins, in
  a catalog whose bundle names all have the form \<^verbatim>\<open>namespace.name\<close>, it is marked as a
  cycle and its chain is the FQNs of the cycle, from its own FQN on, followed by its own
  FQN: the chain holds the own FQN exactly twice, as its first and as its last element.
\<close>

theorem resolved_chain_shape:
  assumes "complete_redirects rd = Inr rd'"
    and "get_plugin rd (c, pt) n = Some p"
    and "redirect p = RedirectTo r"
    and "redirect_chain p = None"
  shows "\<exists>x rest. get_plugin rd' (c, pt) n = Some x
     \<and> redirect x \<noteq> Absent
     \<and> redirect_chain x = Some ((c @ ''.'' @ n) # rest)
     \<and> (redirect_error x = None \<and> \<not> redirect_tombstone x \<and> \<not> redirect_dead_end x
          \<longrightarrow> redirect x = RedirectTo (last ((c @ ''.'' @ n) # rest)))
     \<and> (cycle_marks_closed rd \<and> redirect x = Ellipsis
          \<longrightarrow> rest \<noteq> [] \<and> (last rest = c @ ''.'' @ n \<or> last rest \<in> set (butlast rest)))
     \<and> (hops rd pt (c @ ''.'' @ n) cyc (c @ ''.'' @ n) \<and> cyc \<noteq> [] \<and> distinct (map fst cyc)
          \<and> (\<forall>b \<in> set (map fst rd). two_part b)
          \<longrightarrow> redirect x = Ellipsis \<and> (c @ ''.'' @ n) # rest = map fst cyc @ [c @ ''.'' @ n])"
proof -
  note rw = complete_redirects_rewritten [OF assms(1)]
  from assms(2) have "get_plugin rd' (c, pt) n \<noteq> None"
    using rewritten_get_plugin [OF rw(1), of "(c, pt)" n] by simp
  then obtain x where x: "get_plugin rd' (c, pt) n = Some x" by auto
  with rw(2) have "already_done x" by (auto simp: all_done_def)
  moreover have nd: "\<not> already_done p"
    using assms(3,4) by (simp add: already_done_def)
  moreover from rw(1) x have "get_plugin rd (c, pt) n = Some x \<or> written (c @ ''.'' @ n) x"
    unfolding rewritten_def by fastforce
  ultimately have w: "written (c @ ''.'' @ n) x"
    using assms(2) by auto
  then obtain rest where rest: "redirect_chain x = Some ((c @ ''.'' @ n) # rest)"
    "\<forall>t. clean_outcome (redirect x) (redirect_tombstone x) (redirect_dead_end x)
            (redirect_error x) t \<longrightarrow> last ((c @ ''.'' @ n) # rest) = t"
    by (auto simp: written_def)
  have clean: "redirect x = RedirectTo (last ((c @ ''.'' @ n) # rest))"
    if "redirect_error x = None" "\<not> redirect_tombstone x" "\<not> redirect_dead_end x"
  proof (cases "redirect x")
    case Absent
    with w show ?thesis by (simp add: written_def)
  next
    case Ellipsis
    with w that show ?thesis by (simp add: written_def)
  next
    case (RedirectTo t)
    with that have "clean_outcome (redirect x) (redirect_tombstone x) (redirect_dead_end x)
        (redirect_error x) t"
      by (simp add: clean_outcome_def)
    with rest(2) RedirectTo show ?thesis by simp
  qed
  have cycle: "rest \<noteq> [] \<and> (last rest = c @ ''.'' @ n \<or> last rest \<in> set (butlast rest))"
    if "cycle_marks_closed rd" "redirect x = Ellipsis"
  proof -
    from that(1) have "cycles_closed rd"
      by (rule cycle_marks_closedD)
    with assms(1) have "cycles_closed rd'"
      unfolding complete_redirects_def by (rule complete_collections_closed)
    with x have "ends_in_cycle x"
      by (auto simp: cycles_closed_def)
    with that(2) rest(1) have "closed_chain ((c @ ''.'' @ n) # rest)"
      by (simp add: ends_in_cycle_def)
    then show ?thesis
      by (cases rest rule: rev_cases) (auto simp: closed_chain_def butlast_append)
  qed
  have on: "redirect x = Ellipsis \<and> (c @ ''.'' @ n) # rest = map fst cyc @ [c @ ''.'' @ n]"
    if "hops rd pt (c @ ''.'' @ n) cyc (c @ ''.'' @ n)" "cyc \<noteq> []" "distinct (map fst cyc)"
      "\<forall>b \<in> set (map fst rd). two_part b"
  proof -
    from assms(1,2) nd that have "marked_at rd rd' (c, pt) n"
      by (rule on_cycle_marked)
    with x obtain ch where ch: "redirect x = Ellipsis" "redirect_chain x = Some ch"
      "round_trip rd pt (c @ ''.'' @ n) ch"
      by (auto simp: marked_at_def marked_rec_def)
    from ch(3) that(1,2,3) have "ch = map fst cyc @ [c @ ''.'' @ n]"
      by (rule round_trip_unique)
    with ch(1,2) rest(1) show ?thesis by simp
  qed
  from x w rest(1) clean cycle on show ?thesis
    by (auto simp: written_def)
qed

theorem resolved_chain_shape_witness:
  "(\<exists>x rest. resolved_record chain_ba ''a'' = Some x
      \<and> redirect x \<noteq> Absent
      \<and> redirect_chain x = Some (''foo.bar.a'' # rest)
      \<and> redirect x = RedirectTo (last (''foo.bar.a'' # rest)))
   \<and> (\<exists>x rest. resolved_record pre_loop ''loop_2'' = Some x
      \<and> redirect x = Ellipsis
      \<and> redirect_chain x = Some (''foo.bar.loop_2'' # rest)
      \<and> rest \<noteq> [] \<and> (last rest = ''foo.bar.loop_2'' \<or> last rest \<in> set (butlast rest)))
   \<and> (\<exists>x. resolved_record loop_3 ''loop_1'' = Some x
      \<and> redirect x = Ellipsis
      \<and> redirect_chain x
          = Some [''foo.bar.loop_1'', ''bar.baz.loop_2'', ''foo.bar.loop_3'', ''foo.bar.loop_1''])"
proof (intro conjI)
  have "\<not> isl (complete_redirects chain_ba)"
    by code_simp
  then obtain rd' where 1: "complete_redirects chain_ba = Inr rd'"
    by (cases "complete_redirects chain_ba") auto
  have 2: "get_plugin chain_ba (''foo.bar'', ''module'') ''a'' = Some (redirecting ''foo.bar.b'')"
    by code_simp
  have 3: "redirect (redirecting ''foo.bar.b'') = RedirectTo ''foo.bar.b''"
    "redirect_chain (redirecting ''foo.bar.b'') = None"
    by (simp_all add: redirecting_def blank_routing_def)
  have fq: "''foo.bar'' @ ''.'' @ ''a'' = ''foo.bar.a''"
    by simp
  from resolved_chain_shape [OF 1 2 3, unfolded fq]
  obtain x rest where x: "get_plugin rd' (''foo.bar'', ''module'') ''a'' = Some x"
    "redirect x \<noteq> Absent" "redirect_chain x = Some (''foo.bar.a'' # rest)"
    "redirect_error x = None \<and> \<not> redirect_tombstone x \<and> \<not> redirect_dead_end x
       \<longrightarrow> redirect x = RedirectTo (last (''foo.bar.a'' # rest))"
    by blast
  have "map_option redirect_error (resolved_record chain_ba ''a'') = Some None"
    "map_option redirect_tombstone (resolved_record chain_ba ''a'') = Some False"
    "map_option redirect_dead_end (resolved_record chain_ba ''a'') = Some False"
    by code_simp+
  with 1 x(1) have "redirect_error x = None" "\<not> redirect_tombstone x" "\<not> redirect_dead_end x"
    by (simp_all add: resolved_record_def)
  with 1 x show "\<exists>x rest. resolved_record chain_ba ''a'' = Some x
      \<and> redirect x \<noteq> Absent
      \<and> redirect_chain x = Some (''foo.bar.a'' # rest)
      \<and> redirect x = RedirectTo (last (''foo.bar.a'' # rest))"
    by (auto simp: resolved_record_def)
next
  have "\<not> isl (complete_redirects pre_loop)"
    by code_simp
  then obtain rd' where 1: "complete_redirects pre_loop = Inr rd'"
    by (cases "complete_redirects pre_loop") auto
  have 2: "get_plugin pre_loop (''foo.bar'', ''module'') ''loop_2''
      = Some (redirecting ''foo.bar.loop_3'')"
    by code_simp
  have 3: "redirect (redirecting ''foo.bar.loop_3'') = RedirectTo ''foo.bar.loop_3''"
    "redirect_chain (redirecting ''foo.bar.loop_3'') = None"
    by (simp_all add: redirecting_def blank_routing_def)
  have 4: "cycle_marks_closed pre_loop"
    by code_simp
  have fq: "''foo.bar'' @ ''.'' @ ''loop_2'' = ''foo.bar.loop_2''"
    by simp
  from resolved_chain_shape [OF 1 2 3, unfolded fq]
  obtain x rest where x: "get_plugin rd' (''foo.bar'', ''module'') ''loop_2'' = Some x"
    "redirect_chain x = Some (''foo.bar.loop_2'' # rest)"
    "cycle_marks_closed pre_loop \<and> redirect x = Ellipsis
       \<longrightarrow> rest \<noteq> [] \<and> (last rest = ''foo.bar.loop_2'' \<or> last rest \<in> set (butlast rest))"
    by blast
  have "map_option redirect (resolved_record pre_loop ''loop_2'') = Some Ellipsis"
    by code_simp
  with 1 x(1) have "redirect x = Ellipsis"
    by (simp add: resolved_record_def)
  with 1 4 x show "\<exists>x rest. resolved_record pre_loop ''loop_2'' = Some x
      \<and> redirect x = Ellipsis
      \<and> redirect_chain x = Some (''foo.bar.loop_2'' # rest)
      \<and> rest \<noteq> [] \<and> (last rest = ''foo.bar.loop_2'' \<or> last rest \<in> set (butlast rest))"
    by (auto simp: resolved_record_def)
next
  let ?pA = "(redirecting ''bar.baz.loop_2'')\<lparr>deprecation := Some old_removal\<rparr>"
  let ?pB = "redirecting ''foo.bar.loop_3''"
  let ?pC = "(redirecting ''foo.bar.loop_1'')\<lparr>deprecation := Some dead_removal\<rparr>"
  let ?cyc = "[(''foo.bar.loop_1'', ''foo.bar'', ''loop_1'', Some ?pA, Some (''foo.bar'', ''module'')),
     (''bar.baz.loop_2'', ''bar.baz'', ''loop_2'', Some ?pB, Some (''bar.baz'', ''module'')),
     (''foo.bar.loop_3'', ''foo.bar'', ''loop_3'', Some ?pC, Some (''foo.bar'', ''module''))]"
  have "\<not> isl (complete_redirects loop_3)"
    by code_simp
  then obtain rd' where 1: "complete_redirects loop_3 = Inr rd'"
    by (cases "complete_redirects loop_3") auto
  have 2: "get_plugin loop_3 (''foo.bar'', ''module'') ''loop_1'' = Some ?pA"
    by code_simp
  have 3: "redirect ?pA = RedirectTo ''bar.baz.loop_2''" "redirect_chain ?pA = None"
    by (simp_all add: redirecting_def blank_routing_def)
  have fq: "''foo.bar'' @ ''.'' @ ''loop_1'' = ''foo.bar.loop_1''"
    by simp
  have 4: "hops loop_3 ''module'' ''foo.bar.loop_1'' ?cyc ''foo.bar.loop_1''"
    by code_simp
  have 5: "?cyc \<noteq> []" "distinct (map fst ?cyc)"
    by simp_all
  have 6: "\<forall>b \<in> set (map fst loop_3). two_part b"
    by code_simp
  from resolved_chain_shape [where cyc = ?cyc, OF 1 2 3, unfolded fq]
  obtain x rest where x: "get_plugin rd' (''foo.bar'', ''module'') ''loop_1'' = Some x"
    "redirect_chain x = Some (''foo.bar.loop_1'' # rest)"
    "hops loop_3 ''module'' ''foo.bar.loop_1'' ?cyc ''foo.bar.loop_1'' \<and> ?cyc \<noteq> []
       \<and> distinct (map fst ?cyc) \<and> (\<forall>b \<in> set (map fst loop_3). two_part b)
       \<longrightarrow> redirect x = Ellipsis
         \<and> ''foo.bar.loop_1'' # rest = map fst ?cyc @ [''foo.bar.loop_1'']"
    by blast
  from x(3) 4 5 6 have "redirect x = Ellipsis
      \<and> ''foo.bar.loop_1'' # rest = map fst ?cyc @ [''foo.bar.loop_1'']"
    by blast
  then have "redirect x = Ellipsis"
    "''foo.bar.loop_1'' # rest
       = [''foo.bar.loop_1'', ''bar.baz.loop_2'', ''foo.bar.loop_3'', ''foo.bar.loop_1'']"
    by simp_all
  with 1 x(1,2) show "\<exists>x. resolved_record loop_3 ''loop_1'' = Some x
      \<and> redirect x = Ellipsis
      \<and> redirect_chain x
          = Some [''foo.bar.loop_1'', ''bar.baz.loop_2'', ''foo.bar.loop_3'', ''foo.bar.loop_1'']"
    by (simp add: resolved_record_def)
qed

end
